theory Spec2Isabelle
  imports Main "HOL-Library.Sublist" "HOL-Library.Char_ord" "HOL-Library.List_Lexorder"
begin

section \<open>JavaScript strings\<close>

text \<open>
  A JavaScript string is a sequence of UTF-16 code units. The embedding uses
  \<open>string\<close>; a \<open>char\<close> stands for a code unit in the range 0..255 (ASCII and
  Latin-1), which is where every character class of the program's regular expressions
  has its members, U+00A0 (a member of \<open>\s\<close>) included.
\<close>

definition isSpace :: "char \<Rightarrow> bool" where
  \<comment> \<open>The class \<open>\s\<close> and the characters removed by \<open>String.prototype.trim\<close>.\<close>
  "isSpace c = (c = CHR 0x09 \<or> c = CHR 0x0A \<or> c = CHR 0x0B \<or> c = CHR 0x0C \<or>
                c = CHR 0x0D \<or> c = CHR 0x20 \<or> c = CHR 0xA0)"

definition isLineTerminator :: "char \<Rightarrow> bool" where
  \<comment> \<open>The characters the regular expression atom \<open>.\<close> does not match.\<close>
  "isLineTerminator c = (c = CHR 0x0A \<or> c = CHR 0x0D)"

definition isUpper :: "char \<Rightarrow> bool" where
  "isUpper c = (CHR ''A'' \<le> c \<and> c \<le> CHR ''Z'')"

definition isLower :: "char \<Rightarrow> bool" where
  "isLower c = (CHR ''a'' \<le> c \<and> c \<le> CHR ''z'')"

definition isDigit :: "char \<Rightarrow> bool" where
  "isDigit c = (CHR ''0'' \<le> c \<and> c \<le> CHR ''9'')"

definition isAlpha :: "char \<Rightarrow> bool" where
  "isAlpha c = (isUpper c \<or> isLower c)"

definition upperChars :: string where
  "upperChars = ''ABCDEFGHIJKLMNOPQRSTUVWXYZ'' @
     [CHR 0xC0, CHR 0xC1, CHR 0xC2, CHR 0xC3, CHR 0xC4, CHR 0xC5, CHR 0xC6, CHR 0xC7,
      CHR 0xC8, CHR 0xC9, CHR 0xCA, CHR 0xCB, CHR 0xCC, CHR 0xCD, CHR 0xCE, CHR 0xCF,
      CHR 0xD0, CHR 0xD1, CHR 0xD2, CHR 0xD3, CHR 0xD4, CHR 0xD5, CHR 0xD6,
      CHR 0xD8, CHR 0xD9, CHR 0xDA, CHR 0xDB, CHR 0xDC, CHR 0xDD, CHR 0xDE]"

definition lowerChars :: string where
  "lowerChars = ''abcdefghijklmnopqrstuvwxyz'' @
     [CHR 0xE0, CHR 0xE1, CHR 0xE2, CHR 0xE3, CHR 0xE4, CHR 0xE5, CHR 0xE6, CHR 0xE7,
      CHR 0xE8, CHR 0xE9, CHR 0xEA, CHR 0xEB, CHR 0xEC, CHR 0xED, CHR 0xEE, CHR 0xEF,
      CHR 0xF0, CHR 0xF1, CHR 0xF2, CHR 0xF3, CHR 0xF4, CHR 0xF5, CHR 0xF6,
      CHR 0xF8, CHR 0xF9, CHR 0xFA, CHR 0xFB, CHR 0xFC, CHR 0xFD, CHR 0xFE]"

definition toLowerChar :: "char \<Rightarrow> char" where
  "toLowerChar c = (case map_of (zip upperChars lowerChars) c of Some d \<Rightarrow> d | None \<Rightarrow> c)"

definition toLowerCase :: "string \<Rightarrow> string" where
  "toLowerCase s = map toLowerChar s"

definition trimStart :: "string \<Rightarrow> string" where
  "trimStart s = dropWhile isSpace s"

definition trimEnd :: "string \<Rightarrow> string" where
  "trimEnd s = rev (dropWhile isSpace (rev s))"

definition trim :: "string \<Rightarrow> string" where
  "trim s = trimEnd (trimStart s)"

definition startsWith :: "string \<Rightarrow> string \<Rightarrow> bool" where
  \<comment> \<open>\<open>s.startsWith(p)\<close>\<close>
  "startsWith p s = prefix p s"

definition endsWith :: "string \<Rightarrow> string \<Rightarrow> bool" where
  \<comment> \<open>\<open>s.endsWith(p)\<close>\<close>
  "endsWith p s = prefix (rev p) (rev s)"

fun splitOn :: "char \<Rightarrow> string \<Rightarrow> string list" where
  \<comment> \<open>\<open>s.split(d)\<close> for a one-character separator: never the empty list.\<close>
  "splitOn d [] = [[]]"
| "splitOn d (c # cs) =
     (if c = d then [] # splitOn d cs
      else (case splitOn d cs of [] \<Rightarrow> [[c]] | l # ls \<Rightarrow> (c # l) # ls))"

fun joinWith :: "string \<Rightarrow> string list \<Rightarrow> string" where
  \<comment> \<open>\<open>xs.join(sep)\<close>\<close>
  "joinWith sep [] = []"
| "joinWith sep [x] = x"
| "joinWith sep (x # y # ys) = x @ sep @ joinWith sep (y # ys)"

definition splitLines :: "string \<Rightarrow> string list" where
  "splitLines content = splitOn CHR 0x0A content"

definition joinLines :: "string list \<Rightarrow> string" where
  "joinLines ls = joinWith [CHR 0x0A] ls"

definition stripLeadingSlash :: "string \<Rightarrow> string" where
  \<comment> \<open>\<open>s.replace(/^\//, '')\<close>\<close>
  "stripLeadingSlash s = (case s of [] \<Rightarrow> [] | c # cs \<Rightarrow> if c = CHR ''/'' then cs else s)"

definition stripLeadingSlashes :: "string \<Rightarrow> string" where
  \<comment> \<open>\<open>s.replace(/^\/+/, '')\<close>\<close>
  "stripLeadingSlashes s = dropWhile (\<lambda>c. c = CHR ''/'') s"

definition ensureTrailingSlash :: "string \<Rightarrow> string" where
  \<comment> \<open>\<open>baseUrl.endsWith('/') ? baseUrl : `${baseUrl}/`\<close>\<close>
  "ensureTrailingSlash b = (if endsWith ''/'' b then b else b @ ''/'')"

section \<open>The POSIX path functions of the Node.js runtime\<close>

text \<open>
  The program calls \<open>path.posix.normalize\<close>, \<open>join\<close>, \<open>dirname\<close> and \<open>resolve\<close> of the
  Node.js standard library (on a POSIX host \<open>path\<close> is \<open>path.posix\<close> and \<open>path.sep\<close> is
  \<open>/\<close>). They belong to the runtime, not to the repository; the definitions below follow
  the runtime's algorithm: a path is cut at \<open>/\<close>, empty and \<open>.\<close> segments are
  skipped, \<open>..\<close> removes the segment before it (or is kept, in a relative path that
  has none left).
\<close>

fun normSegs :: "bool \<Rightarrow> string list \<Rightarrow> string list \<Rightarrow> string list" where
  \<comment> \<open>\<open>allowAboveRoot\<close>, the segments kept so far (last first), the segments to come\<close>
  "normSegs a st [] = rev st"
| "normSegs a st (s # ss) =
     (if s = [] \<or> s = ''.'' then normSegs a st ss
      else if s = ''..'' then
        (case st of
           [] \<Rightarrow> if a then normSegs a [''..''] ss else normSegs a [] ss
         | t # ts \<Rightarrow>
             if t \<noteq> ''..'' then normSegs a ts ss
             else if a then normSegs a (''..'' # st) ss else normSegs a st ss)
      else normSegs a (s # st) ss)"

definition normalizeString :: "string \<Rightarrow> bool \<Rightarrow> string" where
  "normalizeString p allowAboveRoot =
     joinWith ''/'' (normSegs allowAboveRoot [] (splitOn CHR ''/'' p))"

definition posix_normalize :: "string \<Rightarrow> string" where
  "posix_normalize p =
     (if p = [] then ''.''
      else
        (let isAbsolute = (hd p = CHR ''/'');
             trailingSeparator = (last p = CHR ''/'');
             q = normalizeString p (\<not> isAbsolute)
         in if q = [] then (if isAbsolute then ''/'' else if trailingSeparator then ''./'' else ''.'')
            else (let q' = (if trailingSeparator then q @ ''/'' else q)
                  in if isAbsolute then ''/'' @ q' else q')))"

definition posix_join :: "string list \<Rightarrow> string" where
  "posix_join args =
     (let parts = filter (\<lambda>a. a \<noteq> []) args
      in if parts = [] then ''.'' else posix_normalize (joinWith ''/'' parts))"

fun resolveLoop :: "string list \<Rightarrow> string \<Rightarrow> bool \<Rightarrow> string \<times> bool" where
  \<comment> \<open>the arguments from the last to the first, then the working directory\<close>
  "resolveLoop [] acc isAbs = (acc, isAbs)"
| "resolveLoop (p # ps) acc isAbs =
     (if isAbs then (acc, isAbs)
      else if p = [] then resolveLoop ps acc isAbs
      else resolveLoop ps (p @ ''/'' @ acc) (hd p = CHR ''/''))"

definition posix_resolve :: "string \<Rightarrow> string list \<Rightarrow> string" where
  \<comment> \<open>\<open>path.resolve(...args)\<close> in a process whose working directory is \<open>cwd\<close>\<close>
  "posix_resolve cwd args =
     (case resolveLoop (rev args @ [cwd]) [] False of
        (rp, isAbs) \<Rightarrow>
          (let n = normalizeString rp (\<not> isAbs)
           in if isAbs then ''/'' @ n else if n \<noteq> [] then n else ''.''))"

fun dirnameScan :: "string \<Rightarrow> bool \<Rightarrow> string option" where
  \<comment> \<open>the characters at the indices \<open>length - 1\<close> down to 1, and \<open>matchedSlash\<close>;
      the result is the text between index 1 and \<open>end\<close>\<close>
  "dirnameScan [] matchedSlash = None"
| "dirnameScan (c # cs) matchedSlash =
     (if c = CHR ''/'' then (if \<not> matchedSlash then Some (rev cs) else dirnameScan cs matchedSlash)
      else dirnameScan cs False)"

definition posix_dirname :: "string \<Rightarrow> string" where
  "posix_dirname p =
     (case p of
        [] \<Rightarrow> ''.''
      | c # cs \<Rightarrow>
          (let hasRoot = (c = CHR ''/'')
           in case dirnameScan (rev cs) True of
                None \<Rightarrow> if hasRoot then ''/'' else ''.''
              | Some r \<Rightarrow> if hasRoot \<and> r = [] then ''//'' else c # r))"

section \<open>Doc path mapping\<close>

definition replaceMdExt :: "string \<Rightarrow> string" where
  \<comment> \<open>\<open>docPath.replace(/\.md$/i, '.html')\<close>\<close>
  "replaceMdExt p =
     (case rev p of
        d # m # dot # r \<Rightarrow>
          if dot = CHR ''.'' \<and> (m = CHR ''m'' \<or> m = CHR ''M'') \<and> (d = CHR ''d'' \<or> d = CHR ''D'')
          then rev r @ ''.html'' else p
      | _ \<Rightarrow> p)"

definition mapDocPath :: "string \<Rightarrow> string" where
  "mapDocPath docPath =
     (let lowerPath = toLowerCase docPath
      in if lowerPath = ''readme.md'' \<or> endsWith ''/readme.md'' lowerPath
         then posix_join [posix_dirname docPath, ''index.html'']
         else if lowerPath = ''index.md'' \<or> endsWith ''/index.md'' lowerPath
         then posix_join [posix_dirname docPath, ''index.html'']
         else if endsWith ''.md'' lowerPath then replaceMdExt docPath
         else docPath)"

definition backslashesToSlashes :: "string \<Rightarrow> string" where
  \<comment> \<open>\<open>relativePath.replace(/\\/g, '/')\<close>\<close>
  "backslashesToSlashes s = map (\<lambda>c. if c = CHR 0x5C then CHR ''/'' else c) s"

definition docPathToUrl :: "string \<Rightarrow> string \<Rightarrow> string" where
  "docPathToUrl relativePath baseUrl =
     (let normalizedBase = ensureTrailingSlash baseUrl;
          posixPath = stripLeadingSlash (backslashesToSlashes relativePath);
          mapped = mapDocPath posixPath
      in normalizedBase @ stripLeadingSlash mapped)"

section \<open>Regular-expression scanning\<close>

text \<open>
  \<open>s.replace(re, f)\<close> with a global expression \<open>re\<close> walks the string from the left;
  at each position not covered by the previous match it tries \<open>re\<close>; a match is replaced
  by the callback's result and scanning goes on after it. A matcher gets the code unit
  before the position (for a lookbehind) and the text from the position on, and gives
  the replacement with the length of the match, which is at least 1 for every expression
  of the program.
\<close>

fun replaceScan ::
  "(char option \<Rightarrow> string \<Rightarrow> (string \<times> nat) option) \<Rightarrow> nat \<Rightarrow> char option \<Rightarrow> string \<Rightarrow> string" where
  "replaceScan m skip prev [] = []"
| "replaceScan m skip prev (c # cs) =
     (if 0 < skip then replaceScan m (skip - 1) (Some c) cs
      else (case m prev (c # cs) of
              Some (rep, n) \<Rightarrow> rep @ replaceScan m (n - 1) (Some c) cs
            | None \<Rightarrow> c # replaceScan m 0 (Some c) cs))"

definition replaceAll :: "(char option \<Rightarrow> string \<Rightarrow> (string \<times> nat) option) \<Rightarrow> string \<Rightarrow> string" where
  "replaceAll m s = replaceScan m 0 None s"

fun breakAt :: "char \<Rightarrow> string \<Rightarrow> (string \<times> string) option" where
  \<comment> \<open>the text before and after the first occurrence of a character\<close>
  "breakAt d [] = None"
| "breakAt d (c # cs) =
     (if c = d then Some ([], cs)
      else (case breakAt d cs of None \<Rightarrow> None | Some (a, b) \<Rightarrow> Some (c # a, b)))"

fun findSub :: "string \<Rightarrow> string \<Rightarrow> nat option" where
  \<comment> \<open>\<open>hay.indexOf(needle)\<close>\<close>
  "findSub needle [] = (if needle = [] then Some 0 else None)"
| "findSub needle (c # cs) =
     (if prefix needle (c # cs) then Some 0
      else (case findSub needle cs of None \<Rightarrow> None | Some k \<Rightarrow> Some (Suc k)))"

section \<open>Fence tracker\<close>

record FenceState =
  inFence :: bool
  fenceMarker :: string

definition noFence :: FenceState where
  "noFence = \<lparr>inFence = False, fenceMarker = []\<rparr>"

definition fenceMarkerOf :: "string \<Rightarrow> string" where
  "fenceMarkerOf line =
     (let trimmed = trim line
      in if startsWith ''```'' trimmed then ''```''
         else if startsWith ''~~~'' trimmed then ''~~~'' else [])"

definition updateFenceState :: "string \<Rightarrow> FenceState \<Rightarrow> FenceState" where
  "updateFenceState line state =
     (let marker = fenceMarkerOf line
      in if marker = [] then state
         else if \<not> inFence state then \<lparr>inFence = True, fenceMarker = marker\<rparr>
         else if fenceMarker state = marker then \<lparr>inFence = False, fenceMarker = []\<rparr>
         else state)"

section \<open>Frontmatter stripper\<close>

fun afterDelimiter :: "string list \<Rightarrow> string list option" where
  \<comment> \<open>the lines after the first line that is \<open>---\<close> when trimmed\<close>
  "afterDelimiter [] = None"
| "afterDelimiter (l # ls) = (if trim l = ''---'' then Some ls else afterDelimiter ls)"

definition stripFrontmatter :: "string \<Rightarrow> string" where
  "stripFrontmatter content =
     (case splitLines content of
        [] \<Rightarrow> content
      | l # ls \<Rightarrow>
          if trim l \<noteq> ''---'' then content
          else (case afterDelimiter ls of None \<Rightarrow> content | Some rest \<Rightarrow> joinLines rest))"

section \<open>Directive and component rewriter\<close>

definition matchComment :: "char option \<Rightarrow> string \<Rightarrow> (string \<times> nat) option" where
  \<comment> \<open>\<open>/<!--[\s\S]*?-->/\<close>, replaced by the empty string\<close>
  "matchComment prev s =
     (if prefix ''<!--'' s
      then (case findSub ''-->'' (drop 4 s) of None \<Rightarrow> None | Some k \<Rightarrow> Some ([], 4 + k + 3))
      else None)"

definition stripHtmlComments :: "string \<Rightarrow> string" where
  "stripHtmlComments line = replaceAll matchComment line"

definition STANDARD_HTML_TAGS :: "string list" where
  "STANDARD_HTML_TAGS =
     [''a'', ''abbr'', ''address'', ''article'', ''aside'', ''audio'', ''b'', ''blockquote'',
      ''br'', ''button'', ''caption'', ''cite'', ''code'', ''col'', ''colgroup'', ''data'',
      ''datalist'', ''dd'', ''del'', ''details'', ''dfn'', ''div'', ''dl'', ''dt'', ''em'',
      ''figcaption'', ''figure'', ''footer'', ''form'', ''h1'', ''h2'', ''h3'', ''h4'', ''h5'',
      ''h6'', ''header'', ''hr'', ''i'', ''img'', ''input'', ''ins'', ''kbd'', ''label'', ''li'',
      ''main'', ''mark'', ''nav'', ''ol'', ''p'', ''pre'', ''q'', ''s'', ''samp'', ''section'',
      ''small'', ''span'', ''strong'', ''sub'', ''summary'', ''sup'', ''table'', ''tbody'',
      ''td'', ''textarea'', ''tfoot'', ''th'', ''thead'', ''time'', ''tr'', ''u'', ''ul'',
      ''var'']"

definition INLINE_COMPONENT_TAGS :: "string list" where
  "INLINE_COMPONENT_TAGS = [''badge'', ''cloud'', ''journey'', ''see'', ''since'', ''todo'']"

definition DROP_COMPONENT_TAGS :: "string list" where
  "DROP_COMPONENT_TAGS =
     [''block'', ''browsershot'', ''codeplaceholder'', ''column'', ''columns'', ''tab'', ''tabs'']"

type_synonym attrs = "(string \<times> string) list"

text \<open>
  The attribute record is an association list read with \<open>map_of\<close>, the latest assignment
  first. An assignment to the key \<open>__proto__\<close> of a JavaScript object with a string value
  creates no property, so it leaves the record as it is.
\<close>

definition setAttr :: "string \<Rightarrow> string \<Rightarrow> attrs \<Rightarrow> attrs" where
  "setAttr k v as = (if k = ''__proto__'' then as else (k, v) # as)"

definition isAttrNameChar :: "char \<Rightarrow> bool" where
  \<comment> \<open>\<open>[A-Za-z0-9:_-]\<close>\<close>
  "isAttrNameChar c = (isAlpha c \<or> isDigit c \<or> c = CHR '':'' \<or> c = CHR ''_'' \<or> c = CHR ''-'')"

definition matchAttr :: "string \<Rightarrow> (string \<times> string \<times> nat) option" where
  \<comment> \<open>\<open>/([A-Za-z0-9:_-]+)\s*=\s*"([^"]*)"/\<close> at the head of the text: name, value, length\<close>
  "matchAttr s =
     (let name = takeWhile isAttrNameChar s;
          r1 = dropWhile isAttrNameChar s;
          w1 = takeWhile isSpace r1;
          r2 = dropWhile isSpace r1
      in if name = [] then None
         else (case r2 of
                 [] \<Rightarrow> None
               | e # r3 \<Rightarrow>
                   if e \<noteq> CHR ''='' then None
                   else (let w2 = takeWhile isSpace r3; r4 = dropWhile isSpace r3
                         in case r4 of
                              [] \<Rightarrow> None
                            | q # r5 \<Rightarrow>
                                if q \<noteq> CHR 0x22 then None
                                else (case breakAt (CHR 0x22) r5 of
                                        None \<Rightarrow> None
                                      | Some (v, _) \<Rightarrow>
                                          Some (name, v,
                                            length name + length w1 + 1 + length w2 + 1 + length v + 1)))))"

fun attrScan :: "nat \<Rightarrow> string \<Rightarrow> attrs \<Rightarrow> attrs" where
  \<comment> \<open>the \<open>regex.exec\<close> loop of \<open>parseAttributes\<close>\<close>
  "attrScan skip [] as = as"
| "attrScan skip (c # cs) as =
     (if 0 < skip then attrScan (skip - 1) cs as
      else (case matchAttr (c # cs) of
              Some (k, v, n) \<Rightarrow> attrScan (n - 1) cs (setAttr (toLowerCase k) v as)
            | None \<Rightarrow> attrScan 0 cs as))"

definition parseAttributes :: "string \<Rightarrow> attrs" where
  "parseAttributes raw = attrScan 0 raw []"

fun firstAttr :: "attrs \<Rightarrow> string list \<Rightarrow> string" where
  \<comment> \<open>\<open>attrs.k1 ?? attrs.k2 ?? ... ?? ''\<close>\<close>
  "firstAttr as [] = []"
| "firstAttr as (k # ks) = (case map_of as k of Some v \<Rightarrow> v | None \<Rightarrow> firstAttr as ks)"

definition componentText :: "string \<Rightarrow> attrs \<Rightarrow> string" where
  "componentText tagName as =
     (let name = toLowerCase tagName
      in if name = ''since'' then
           (let ver = firstAttr as [''ver'', ''version''];
                feature = firstAttr as [''feature'', ''text'', ''label'']
            in if ver \<noteq> [] \<and> feature \<noteq> [] then ''Since '' @ ver @ '': '' @ feature
               else if ver \<noteq> [] then ''Since '' @ ver
               else if feature \<noteq> [] then ''Since: '' @ feature
               else ''Since'')
         else if name = ''badge'' then firstAttr as [''text'', ''label'', ''title'']
         else if name = ''todo'' then
           (let notes = firstAttr as [''notes'', ''text'', ''label'']
            in if notes \<noteq> [] then ''TODO: '' @ notes else ''TODO'')
         else if name = ''journey'' then
           (let pathValue = firstAttr as [''path'', ''label'', ''text'']
            in if pathValue \<noteq> [] then ''Journey: '' @ pathValue else ''Journey'')
         else if name = ''see'' then
           (let label = firstAttr as [''label'', ''text'', ''title''];
                description = firstAttr as [''description'', ''desc''];
                target = firstAttr as [''path'', ''url''];
                parts = filter (\<lambda>p. p \<noteq> []) [label, description, target]
            in if parts = [] then ''See'' else joinWith '' - '' parts)
         else if name = ''cloud'' then []
         else firstAttr as [''text'', ''label'', ''title''])"

definition tagReplacement :: "string \<Rightarrow> string \<Rightarrow> string \<Rightarrow> string" where
  \<comment> \<open>the callback of \<open>replaceComponentTags\<close>: the match, its tag name, its attribute part\<close>
  "tagReplacement match tagName attrPart =
     (let isClosing = startsWith ''</'' match;
          isSelfClosing = endsWith ''/>'' match;
          lowerName = toLowerCase tagName
      in if lowerName \<in> set STANDARD_HTML_TAGS then match
         else if lowerName \<in> set DROP_COMPONENT_TAGS then []
         else if isClosing then []
         else if CHR '':'' \<in> set tagName then tagName
         else (let as = parseAttributes attrPart
               in if lowerName \<in> set INLINE_COMPONENT_TAGS \<or> isSelfClosing then
                    (let text = componentText tagName as in if text \<noteq> [] then text else tagName)
                  else if as \<noteq> [] then []
                  else if (case tagName of [] \<Rightarrow> False | c # _ \<Rightarrow> isUpper c) then []
                  else tagName))"

definition isTagNameChar :: "char \<Rightarrow> bool" where
  \<comment> \<open>\<open>[^\s/>]\<close>\<close>
  "isTagNameChar c = (\<not> isSpace c \<and> c \<noteq> CHR ''/'' \<and> c \<noteq> CHR ''>'')"

definition matchTag :: "string \<Rightarrow> (string \<times> string \<times> string) option" where
  \<comment> \<open>\<open>/<\/?([A-Za-z][^\s/>]*)(\s[^>]*)?>/\<close> at the head of the text: the match, the
      tag name, the attribute part (\<open>''\<close> when the group takes no part). The name is the
      longest run of name characters: a shorter one is followed by a name character,
      which neither starts the attribute group nor is \<open>>\<close>.\<close>
  "matchTag s =
     (case s of
        [] \<Rightarrow> None
      | lt # r \<Rightarrow>
          if lt \<noteq> CHR ''<'' then None
          else (let slash = (case r of [] \<Rightarrow> [] | c # _ \<Rightarrow> if c = CHR ''/'' then ''/'' else []);
                    r1 = drop (length slash) r
                in case r1 of
                     [] \<Rightarrow> None
                   | c # r2 \<Rightarrow>
                       if \<not> isAlpha c then None
                       else (let name = c # takeWhile isTagNameChar r2;
                                 r3 = dropWhile isTagNameChar r2
                             in case r3 of
                                  [] \<Rightarrow> None
                                | d # r4 \<Rightarrow>
                                    if d = CHR ''>'' then Some (''<'' @ slash @ name @ ''>'', name, [])
                                    else if isSpace d then
                                      (case breakAt CHR ''>'' r4 of
                                         None \<Rightarrow> None
                                       | Some (a, _) \<Rightarrow>
                                           Some (''<'' @ slash @ name @ d # a @ ''>'', name, d # a))
                                    else None)))"

definition matchComponentTag :: "char option \<Rightarrow> string \<Rightarrow> (string \<times> nat) option" where
  "matchComponentTag prev s =
     (case matchTag s of
        None \<Rightarrow> None
      | Some (match, tagName, attrPart) \<Rightarrow> Some (tagReplacement match tagName attrPart, length match))"

definition replaceComponentTags :: "string \<Rightarrow> string" where
  "replaceComponentTags line = replaceAll matchComponentTag line"

fun stripLoop :: "FenceState \<Rightarrow> string list \<Rightarrow> string list" where
  \<comment> \<open>the loop of \<open>stripVuePressDirectives\<close>: the state before the line, the lines to come;
      the result is \<open>output\<close>\<close>
  "stripLoop state [] = []"
| "stripLoop state (line # rest) =
     (let state' = updateFenceState line state
      in if inFence state' then line # stripLoop state' rest
         else (let trimmed = trim line
               in if startsWith '':::'' trimmed \<or> startsWith ''!!!'' trimmed
                  then stripLoop state' rest
                  else replaceComponentTags (stripHtmlComments line) # stripLoop state' rest))"

definition stripVuePressDirectives :: "string \<Rightarrow> string" where
  "stripVuePressDirectives content = joinLines (stripLoop noFence (splitLines content))"

section \<open>Title extraction\<close>

definition titleTailOK :: "string \<Rightarrow> bool" where
  \<comment> \<open>the text matches \<open>\s*#*\s*$\<close>\<close>
  "titleTailOK t = (dropWhile isSpace (dropWhile (\<lambda>c. c = CHR ''#'') (dropWhile isSpace t)) = [])"

fun lazyGroup :: "string \<Rightarrow> string \<Rightarrow> string option" where
  \<comment> \<open>the group \<open>(.+?)\<close>: the shortest non-empty run of characters other than line
      terminators after which the rest matches \<open>\s*#*\s*$\<close>; the group so far is kept
      reversed\<close>
  "lazyGroup acc [] = (if acc \<noteq> [] then Some (rev acc) else None)"
| "lazyGroup acc (c # cs) =
     (if acc \<noteq> [] \<and> titleTailOK (c # cs) then Some (rev acc)
      else if isLineTerminator c then None
      else lazyGroup (c # acc) cs)"

fun titleTry :: "nat \<Rightarrow> string \<Rightarrow> string option" where
  \<comment> \<open>\<open>\s+\<close> is greedy: the longest run of white space first, then shorter ones\<close>
  "titleTry 0 r = None"
| "titleTry (Suc k) r =
     (case lazyGroup [] (drop (Suc k) r) of Some g \<Rightarrow> Some g | None \<Rightarrow> titleTry k r)"

definition matchTitle :: "string \<Rightarrow> string option" where
  \<comment> \<open>group 1 of \<open>line.match(/^#\s+(.+?)\s*#*\s*$/)\<close>\<close>
  "matchTitle line =
     (case line of
        [] \<Rightarrow> None
      | c # r \<Rightarrow> if c = CHR ''#'' then titleTry (length (takeWhile isSpace r)) r else None)"

fun titleLoop :: "FenceState \<Rightarrow> string list \<Rightarrow> string \<Rightarrow> string" where
  "titleLoop state [] fallback = fallback"
| "titleLoop state (line # rest) fallback =
     (let state' = updateFenceState line state
      in if inFence state' then titleLoop state' rest fallback
         else (case matchTitle line of
                 Some g \<Rightarrow> trim g
               | None \<Rightarrow> titleLoop state' rest fallback))"

definition extractTitle :: "string \<Rightarrow> string \<Rightarrow> string" where
  "extractTitle content fallback = titleLoop noFence (splitLines content) fallback"

section \<open>Link normalizer\<close>

definition isSchemeChar :: "char \<Rightarrow> bool" where
  \<comment> \<open>\<open>[a-zA-Z0-9+.-]\<close>\<close>
  "isSchemeChar c = (isAlpha c \<or> isDigit c \<or> c = CHR ''+'' \<or> c = CHR ''.'' \<or> c = CHR ''-'')"

definition hasScheme :: "string \<Rightarrow> bool" where
  \<comment> \<open>\<open>/^[a-zA-Z][a-zA-Z0-9+.-]*:/.test(url)\<close>\<close>
  "hasScheme url =
     (case url of
        [] \<Rightarrow> False
      | c # r \<Rightarrow> isAlpha c \<and> (case dropWhile isSchemeChar r of [] \<Rightarrow> False | d # _ \<Rightarrow> d = CHR '':''))"

definition stripDocsPrefix :: "string \<Rightarrow> string" where
  \<comment> \<open>\<open>pathPart.replace(/^\/docs\/5\.x\//, '')\<close>\<close>
  "stripDocsPrefix p = (if prefix ''/docs/5.x/'' p then drop 10 p else p)"

definition normalizeDocLink :: "string \<Rightarrow> string \<Rightarrow> string \<Rightarrow> string" where
  "normalizeDocLink url currentFilePath baseUrl =
     (if url = [] \<or> startsWith ''#'' url then url
      else if startsWith ''//'' url \<or> hasScheme url then url
      else
        (case (case breakAt CHR ''#'' url of
                 None \<Rightarrow> (url, [])
               | Some (a, b) \<Rightarrow> (a, CHR ''#'' # b)) of
           (pathPart1, hash) \<Rightarrow>
             (case (case breakAt CHR ''?'' pathPart1 of
                      None \<Rightarrow> (pathPart1, [])
                    | Some (a, b) \<Rightarrow> (a, CHR ''?'' # b)) of
                (pathPart2, query) \<Rightarrow>
                  (let isRoot = startsWith ''/'' pathPart2;
                       pathPart = (if isRoot then stripLeadingSlashes (stripDocsPrefix pathPart2)
                                   else pathPart2)
                   in if pathPart = [] then url
                      else
                        (let resolvedPath =
                               (if isRoot then pathPart
                                else posix_normalize
                                       (posix_join [posix_dirname currentFilePath, pathPart]));
                             mappedPath = mapDocPath resolvedPath;
                             normalizedBase = ensureTrailingSlash baseUrl
                         in normalizedBase @ stripLeadingSlash mappedPath @ query @ hash)))))"

definition normalizeLinkDestination :: "string \<Rightarrow> string \<Rightarrow> string \<Rightarrow> string" where
  "normalizeLinkDestination rawDestination currentFilePath baseUrl =
     (let leading = takeWhile isSpace rawDestination;
          trailing = rev (takeWhile isSpace (rev rawDestination));
          inner = take (length rawDestination - length trailing - length leading)
                    (drop (length leading) rawDestination)
      in if inner = [] then rawDestination
         else
           (case (if startsWith ''<'' inner then breakAt CHR ''>'' inner else None) of
              Some (a, rest) \<Rightarrow>
                leading @ ''<'' @ normalizeDocLink (drop 1 a) currentFilePath baseUrl @ ''>''
                  @ rest @ trailing
            | None \<Rightarrow>
                (let url = takeWhile (\<lambda>c. \<not> isSpace c) inner;
                     rest = dropWhile (\<lambda>c. \<not> isSpace c) inner
                 in if url = [] then rawDestination
                    else leading @ normalizeDocLink url currentFilePath baseUrl @ rest @ trailing)))"

definition normalizeReferenceDefinition :: "string \<Rightarrow> string \<Rightarrow> string \<Rightarrow> string" where
  \<comment> \<open>\<open>line.match(/^(\s*\[[^\]]+\]:\s*)(\S+)([\s\S]*)$/)\<close>\<close>
  "normalizeReferenceDefinition line currentFilePath baseUrl =
     (let ws1 = takeWhile isSpace line; r1 = dropWhile isSpace line
      in case r1 of
           [] \<Rightarrow> line
         | b # r2 \<Rightarrow>
             if b \<noteq> CHR ''['' then line
             else (case breakAt CHR '']'' r2 of
                     None \<Rightarrow> line
                   | Some (label, r3) \<Rightarrow>
                       if label = [] then line
                       else (case r3 of
                               [] \<Rightarrow> line
                             | colon # r4 \<Rightarrow>
                                 if colon \<noteq> CHR '':'' then line
                                 else
                                   (let ws2 = takeWhile isSpace r4;
                                        r5 = dropWhile isSpace r4;
                                        destination = takeWhile (\<lambda>c. \<not> isSpace c) r5;
                                        rest = dropWhile (\<lambda>c. \<not> isSpace c) r5
                                    in if destination = [] then line
                                       else (ws1 @ ''['' @ label @ '']:'' @ ws2)
                                              @ normalizeLinkDestination destination
                                                  currentFilePath baseUrl
                                              @ rest))))"

definition matchInlineLink ::
  "string \<Rightarrow> string \<Rightarrow> char option \<Rightarrow> string \<Rightarrow> (string \<times> nat) option" where
  \<comment> \<open>\<open>/(?<!!)\[([^\]]+)\]\(([^)]+)\)/\<close> with the callback of \<open>normalizeLinks\<close>\<close>
  "matchInlineLink currentFilePath baseUrl prev s =
     (if prev = Some CHR ''!'' then None
      else (case s of
              [] \<Rightarrow> None
            | b # r \<Rightarrow>
                if b \<noteq> CHR ''['' then None
                else (case breakAt CHR '']'' r of
                        None \<Rightarrow> None
                      | Some (text, r2) \<Rightarrow>
                          if text = [] then None
                          else (case r2 of
                                  [] \<Rightarrow> None
                                | p # r3 \<Rightarrow>
                                    if p \<noteq> CHR 0x28 then None
                                    else (case breakAt (CHR 0x29) r3 of
                                            None \<Rightarrow> None
                                          | Some (destination, _) \<Rightarrow>
                                              if destination = [] then None
                                              else Some
                                                (''['' @ text @ '']('' @
                                                   normalizeLinkDestination destination
                                                     currentFilePath baseUrl @ '')'',
                                                 length text + length destination + 4))))))"

fun linksLoop :: "string \<Rightarrow> string \<Rightarrow> FenceState \<Rightarrow> string list \<Rightarrow> string list" where
  "linksLoop currentFilePath baseUrl state [] = []"
| "linksLoop currentFilePath baseUrl state (line # rest) =
     (let state' = updateFenceState line state
      in if inFence state' then line # linksLoop currentFilePath baseUrl state' rest
         else (let normalizedInline = replaceAll (matchInlineLink currentFilePath baseUrl) line;
                   normalizedReference =
                     normalizeReferenceDefinition normalizedInline currentFilePath baseUrl
               in normalizedReference # linksLoop currentFilePath baseUrl state' rest))"

definition normalizeLinks :: "string \<Rightarrow> string \<Rightarrow> string \<Rightarrow> string" where
  \<comment> \<open>\<open>normalizeLinks(content, { baseUrl, currentFilePath })\<close>\<close>
  "normalizeLinks content baseUrl currentFilePath =
     joinLines (linksLoop currentFilePath baseUrl noFence (splitLines content))"

section \<open>Summary extraction\<close>

definition isHeading :: "string \<Rightarrow> bool" where
  \<comment> \<open>\<open>HEADING_RE = /^#{1,6}\s+/\<close>: one to six \<open>#\<close>, then white space\<close>
  "isHeading t =
     (let n = length (takeWhile (\<lambda>c. c = CHR ''#'') t)
      in 1 \<le> n \<and> n \<le> 6 \<and> (case drop n t of [] \<Rightarrow> False | c # _ \<Rightarrow> isSpace c))"

definition isListItem :: "string \<Rightarrow> bool" where
  \<comment> \<open>\<open>LIST_RE = /^\s*([-*+]|\d+\.)\s+/\<close>\<close>
  "isListItem t =
     (case dropWhile isSpace t of
        [] \<Rightarrow> False
      | c # r \<Rightarrow>
          if c = CHR ''-'' \<or> c = CHR ''*'' \<or> c = CHR ''+''
          then (case r of [] \<Rightarrow> False | d # _ \<Rightarrow> isSpace d)
          else if isDigit c
          then (case dropWhile isDigit r of
                  [] \<Rightarrow> False
                | dot # r' \<Rightarrow> dot = CHR ''.'' \<and> (case r' of [] \<Rightarrow> False | d # _ \<Rightarrow> isSpace d))
          else False)"

definition isHtmlTagOnly :: "string \<Rightarrow> bool" where
  \<comment> \<open>\<open>HTML_TAG_ONLY_RE = /^<[^>]+>$/\<close>\<close>
  "isHtmlTagOnly t =
     (case t of
        [] \<Rightarrow> False
      | c # r \<Rightarrow> c = CHR ''<'' \<and> (case breakAt CHR ''>'' r of
                                   None \<Rightarrow> False
                                 | Some (a, b) \<Rightarrow> a \<noteq> [] \<and> b = []))"

fun summaryLoop :: "FenceState \<Rightarrow> string list \<Rightarrow> string list \<Rightarrow> string list" where
  \<comment> \<open>the state before the line, \<open>paragraph\<close> so far, the lines to come\<close>
  "summaryLoop state paragraph [] = paragraph"
| "summaryLoop state paragraph (line # rest) =
     (let state' = updateFenceState line state
      in if inFence state' then summaryLoop state' paragraph rest
         else (let trimmed = trim line
               in if trimmed = [] then
                    (if paragraph \<noteq> [] then paragraph else summaryLoop state' paragraph rest)
                  else if isHeading trimmed \<or> isListItem trimmed then summaryLoop state' paragraph rest
                  else if isHtmlTagOnly trimmed then summaryLoop state' paragraph rest
                  else summaryLoop state' (paragraph @ [trimmed]) rest))"

definition matchImage :: "char option \<Rightarrow> string \<Rightarrow> (string \<times> nat) option" where
  \<comment> \<open>\<open>/!\[([^\]]*)\]\([^)]*\)/\<close>, replaced by group 1\<close>
  "matchImage prev s =
     (if prefix ''!['' s
      then (case breakAt CHR '']'' (drop 2 s) of
              None \<Rightarrow> None
            | Some (alt, r) \<Rightarrow>
                (case r of
                   [] \<Rightarrow> None
                 | p # r' \<Rightarrow>
                     if p \<noteq> CHR 0x28 then None
                     else (case breakAt (CHR 0x29) r' of
                             None \<Rightarrow> None
                           | Some (d, _) \<Rightarrow> Some (alt, length alt + length d + 5))))
      else None)"

definition matchLinkText :: "char option \<Rightarrow> string \<Rightarrow> (string \<times> nat) option" where
  \<comment> \<open>\<open>/\[([^\]]+)\]\([^)]*\)/\<close>, replaced by group 1\<close>
  "matchLinkText prev s =
     (case s of
        [] \<Rightarrow> None
      | b # r0 \<Rightarrow>
          if b \<noteq> CHR ''['' then None
          else (case breakAt CHR '']'' r0 of
                  None \<Rightarrow> None
                | Some (text, r) \<Rightarrow>
                    if text = [] then None
                    else (case r of
                            [] \<Rightarrow> None
                          | p # r' \<Rightarrow>
                              if p \<noteq> CHR 0x28 then None
                              else (case breakAt (CHR 0x29) r' of
                                      None \<Rightarrow> None
                                    | Some (d, _) \<Rightarrow> Some (text, length text + length d + 4)))))"

definition matchHtmlTag :: "char option \<Rightarrow> string \<Rightarrow> (string \<times> nat) option" where
  \<comment> \<open>\<open>/<[^>]+>/\<close>, replaced by the empty string\<close>
  "matchHtmlTag prev s =
     (case s of
        [] \<Rightarrow> None
      | c # r \<Rightarrow>
          if c \<noteq> CHR ''<'' then None
          else (case breakAt CHR ''>'' r of
                  None \<Rightarrow> None
                | Some (a, _) \<Rightarrow> if a = [] then None else Some ([], length a + 2)))"

definition matchInlineCode :: "char option \<Rightarrow> string \<Rightarrow> (string \<times> nat) option" where
  \<comment> \<open>\<open>/`([^`]*)`/\<close>, replaced by group 1\<close>
  "matchInlineCode prev s =
     (case s of
        [] \<Rightarrow> None
      | c # r \<Rightarrow>
          if c \<noteq> CHR 0x60 then None
          else (case breakAt (CHR 0x60) r of
                  None \<Rightarrow> None
                | Some (a, _) \<Rightarrow> Some (a, length a + 2)))"

definition stripBlockquote :: "string \<Rightarrow> string" where
  \<comment> \<open>\<open>cleaned.replace(/^>+\s*/g, '')\<close>: the expression matches at index 0 only\<close>
  "stripBlockquote s =
     (case s of
        [] \<Rightarrow> []
      | c # r \<Rightarrow> if c = CHR ''>'' then dropWhile isSpace (dropWhile (\<lambda>c. c = CHR ''>'') r) else s)"

fun collapseFrom :: "bool \<Rightarrow> string \<Rightarrow> string" where
  \<comment> \<open>whether the code unit before was white space, the text to come\<close>
  "collapseFrom inRun [] = []"
| "collapseFrom inRun (c # cs) =
     (if isSpace c then (if inRun then collapseFrom True cs else CHR '' '' # collapseFrom True cs)
      else c # collapseFrom False cs)"

definition collapseSpaces :: "string \<Rightarrow> string" where
  \<comment> \<open>\<open>cleaned.replace(/\s+/g, ' ')\<close>: each run of white space becomes one space\<close>
  "collapseSpaces s = collapseFrom False s"

definition cleanSummaryText :: "string \<Rightarrow> string" where
  "cleanSummaryText text =
     (let cleaned = text;
          cleaned = replaceAll matchImage cleaned;
          cleaned = replaceAll matchLinkText cleaned;
          cleaned = replaceAll matchHtmlTag cleaned;
          cleaned = replaceAll matchInlineCode cleaned;
          cleaned = stripBlockquote cleaned;
          cleaned = trim (collapseSpaces cleaned)
      in cleaned)"

definition extractSummary :: "string \<Rightarrow> string" where
  "extractSummary content =
     cleanSummaryText (joinWith '' '' (summaryLoop noFence [] (splitLines content)))"

section \<open>Include expander\<close>

datatype includeError =
    DepthExceeded int string  \<comment> \<open>\<open>Include depth exceeded ${maxDepth} at ${filePath}\<close>\<close>
  | IncludeCycle string       \<comment> \<open>\<open>Include cycle detected at ${resolvedPath}\<close>\<close>
  | PathEscape string         \<comment> \<open>\<open>Include path escapes repo root: ${includePath}\<close>\<close>
  | ReadFailed string         \<comment> \<open>\<open>fs.readFile\<close> rejects (no readable file at the path)\<close>

text \<open>
  Storage is a map from absolute paths to the contents of the readable files. The state
  of one call of \<open>expandIncludeDirectives\<close> is its \<open>cache\<close> and, as the observable effect,
  the list of the paths handed to \<open>fs.readFile\<close>, in order.
\<close>

record expandEnv =
  fileSystem :: "string \<rightharpoonup> string"
  workingDir :: string
  repoRoot :: string
  maxDepth :: int

record expandState =
  cache :: "string \<rightharpoonup> string"
  reads :: "string list"

definition matchInclude :: "string \<Rightarrow> (string \<times> nat) option" where
  \<comment> \<open>\<open>INCLUDE_DIRECTIVE_RE = /!!!include\(([^)]+)\)!!!/\<close> at the head of the text:
      group 1 and the length of the match\<close>
  "matchInclude s =
     (if prefix ''!!!include('' s
      then (case breakAt (CHR 0x29) (drop 11 s) of
              None \<Rightarrow> None
            | Some (g, r) \<Rightarrow>
                if g \<noteq> [] \<and> prefix ''!!!'' r then Some (g, 11 + length g + 1 + 3) else None)
      else None)"

fun includeScan :: "nat \<Rightarrow> string \<Rightarrow> string \<Rightarrow> (string \<times> string) list \<times> string" where
  \<comment> \<open>\<open>input.matchAll(INCLUDE_DIRECTIVE_RE)\<close>: for each match the text between the match
      before it and itself (\<open>input.slice(lastIndex, matchIndex)\<close>) with its group 1,
      and the text after the last match (\<open>input.slice(lastIndex)\<close>)\<close>
  "includeScan skip acc [] = ([], rev acc)"
| "includeScan skip acc (c # cs) =
     (if 0 < skip then includeScan (skip - 1) acc cs
      else (case matchInclude (c # cs) of
              Some (g, n) \<Rightarrow>
                (case includeScan (n - 1) [] cs of (ms, t) \<Rightarrow> ((rev acc, g) # ms, t))
            | None \<Rightarrow> includeScan 0 (c # acc) cs))"

definition includeMatches :: "string \<Rightarrow> (string \<times> string) list \<times> string" where
  "includeMatches input = includeScan 0 [] input"

definition resolveIncludePath :: "string \<Rightarrow> string \<Rightarrow> string \<Rightarrow> string \<Rightarrow> includeError + string" where
  \<comment> \<open>the working directory of the process, then the arguments of the source\<close>
  "resolveIncludePath cwd includePath root currentFilePath =
     (let resolvedPath =
            (if startsWith ''/'' includePath then posix_join [root, stripLeadingSlashes includePath]
             else if startsWith ''.'' includePath
             then posix_resolve cwd [posix_dirname currentFilePath, includePath]
             else posix_join [root, includePath]);
          normalizedRoot = posix_resolve cwd [root];
          normalizedPath = posix_resolve cwd [resolvedPath]
      in if normalizedPath \<noteq> normalizedRoot \<and> \<not> startsWith (normalizedRoot @ ''/'') normalizedPath
         then Inl (PathEscape includePath)
         else Inr normalizedPath)"

definition readCached :: "expandEnv \<Rightarrow> string \<Rightarrow> expandState \<Rightarrow> expandState \<times> string option" where
  \<comment> \<open>\<open>cache.get(resolvedPath)\<close>, and on a miss \<open>fs.readFile\<close> and \<open>cache.set\<close>\<close>
  "readCached E p st =
     (case cache st p of
        Some c \<Rightarrow> (st, Some c)
      | None \<Rightarrow>
          (case fileSystem E p of
             None \<Rightarrow> (st\<lparr>reads := reads st @ [p]\<rparr>, None)
           | Some c \<Rightarrow> (st\<lparr>cache := (cache st)(p \<mapsto> c), reads := reads st @ [p]\<rparr>, Some c)))"

text \<open>
  \<open>expand\<close> is the inner function of the source, \<open>expandEach\<close> its loop over the matches.
  The source adds the resolved path to the one mutable \<open>stack\<close> before the recursive call
  and deletes it after; the path was not a member before (the cycle check has passed), so
  after the deletion the set is the one before, which is what passing the enlarged set to
  the recursive call alone expresses. A thrown error ends the whole call; it is returned
  with the state reached.
\<close>

function expand ::
    "expandEnv \<Rightarrow> string \<Rightarrow> string \<Rightarrow> int \<Rightarrow> string set \<Rightarrow> expandState
      \<Rightarrow> expandState \<times> (includeError + string)"
  and expandEach ::
    "expandEnv \<Rightarrow> (string \<times> string) list \<Rightarrow> string \<Rightarrow> int \<Rightarrow> string set \<Rightarrow> expandState
      \<Rightarrow> expandState \<times> (includeError + string)"
where
  "expand E input filePath depth stack st =
     (if depth > maxDepth E then (st, Inl (DepthExceeded (maxDepth E) filePath))
      else (case includeMatches input of
              ([], _) \<Rightarrow> (st, Inr input)
            | (m # ms, rest) \<Rightarrow>
                (case expandEach E (m # ms) filePath depth stack st of
                   (st', Inl e) \<Rightarrow> (st', Inl e)
                 | (st', Inr r) \<Rightarrow> (st', Inr (r @ rest)))))"
| "expandEach E [] filePath depth stack st = (st, Inr [])"
| "expandEach E ((before, g) # ms) filePath depth stack st =
     (case resolveIncludePath (workingDir E) (trim g) (repoRoot E) filePath of
        Inl e \<Rightarrow> (st, Inl e)
      | Inr resolvedPath \<Rightarrow>
          if resolvedPath \<in> stack then (st, Inl (IncludeCycle resolvedPath))
          else (case readCached E resolvedPath st of
                  (st1, None) \<Rightarrow> (st1, Inl (ReadFailed resolvedPath))
                | (st1, Some included) \<Rightarrow>
                    (case expand E included resolvedPath (depth + 1)
                            (insert resolvedPath stack) st1 of
                       (st2, Inl e) \<Rightarrow> (st2, Inl e)
                     | (st2, Inr expanded) \<Rightarrow>
                         (case expandEach E ms filePath depth stack st2 of
                            (st3, Inl e) \<Rightarrow> (st3, Inl e)
                          | (st3, Inr r) \<Rightarrow> (st3, Inr (before @ expanded @ r))))))"
  by pat_completeness auto
termination
  by (relation "inv_image (less_than <*lex*> less_than)
        (\<lambda>x. case x of
           Inl (E, input, filePath, depth, stack, st) \<Rightarrow>
             (if depth > maxDepth E then 0 else 2 * nat (maxDepth E + 1 - depth) + 2, 0)
         | Inr (E, ms, filePath, depth, stack, st) \<Rightarrow>
             (2 * nat (maxDepth E + 1 - depth) + 1, length ms))")
    (auto split: if_splits)

definition expandIncludeDirectives ::
  "(string \<rightharpoonup> string) \<Rightarrow> string \<Rightarrow> string \<Rightarrow> string \<Rightarrow> string \<Rightarrow> int option
    \<Rightarrow> expandState \<times> (includeError + string)" where
  \<comment> \<open>storage and the working directory of the process, then \<open>content\<close>,
      \<open>options.repoRoot\<close>, \<open>options.currentFilePath\<close> and \<open>options.maxDepth\<close>\<close>
  "expandIncludeDirectives fs cwd content optRepoRoot currentFilePath optMaxDepth =
     expand
       \<lparr>fileSystem = fs, workingDir = cwd, repoRoot = posix_resolve cwd [optRepoRoot],
        maxDepth = (case optMaxDepth of None \<Rightarrow> 5 | Some d \<Rightarrow> d)\<rparr>
       content currentFilePath 0 {} \<lparr>cache = Map.empty, reads = []\<rparr>"

section \<open>Page and index assembler\<close>

text \<open>
  \<open>build\<close> reads the files that \<open>collectMarkdownFiles\<close> has found. File discovery, the
  git collaborator and the writing of the two outputs are outside the embedding: a source
  file comes with its root-relative POSIX path (\<open>relPath\<close>), the name of the file without
  its extension (\<open>fallbackTitle\<close>) and its text (\<open>raw\<close>); the commit and its time stamp are
  parameters.
\<close>

record SourceFile =
  relPath :: string
  fallbackTitle :: string
  raw :: string

record IndexEntry =
  entryTitle :: string
  entryUrl :: string
  entrySummary :: string
  entryRelPath :: string

record Page =
  pageChunk :: "string list"
  pageGroup :: string
  pageEntry :: IndexEntry

definition processFile :: "string \<Rightarrow> SourceFile \<Rightarrow> Page" where
  \<comment> \<open>the body of the loop over \<open>files\<close> in \<open>build\<close>; \<open>baseUrl\<close> ends with a slash there\<close>
  "processFile baseUrl f =
     (let withoutFrontmatter = stripFrontmatter (raw f);
          cleaned = stripVuePressDirectives withoutFrontmatter;
          title = extractTitle cleaned (fallbackTitle f);
          normalizedContent = trimEnd (normalizeLinks cleaned baseUrl (relPath f));
          summary = extractSummary cleaned;
          url = docPathToUrl (relPath f) baseUrl;
          group = (if CHR ''/'' \<in> set (relPath f) then hd (splitOn CHR ''/'' (relPath f))
                   else ''root'')
      in \<lparr>pageChunk = [''---'', ''# '' @ title, normalizedContent, []],
          pageGroup = group,
          pageEntry = \<lparr>entryTitle = title, entryUrl = url, entrySummary = summary,
                        entryRelPath = relPath f\<rparr>\<rparr>)"

text \<open>
  \<open>indexGroups\<close> is a JavaScript \<open>Map\<close>: its keys are kept in the order of their first
  insertion. It is an association list with one pair for each key.
\<close>

fun addEntry :: "string \<Rightarrow> IndexEntry \<Rightarrow> (string \<times> IndexEntry list) list
    \<Rightarrow> (string \<times> IndexEntry list) list" where
  \<comment> \<open>\<open>entries = indexGroups.get(group) ?? []; entries.push(e); indexGroups.set(group, entries)\<close>\<close>
  "addEntry g e [] = [(g, [e])]"
| "addEntry g e ((k, es) # rest) =
     (if k = g then (k, es @ [e]) # rest else (k, es) # addEntry g e rest)"

fun collectGroups :: "Page list \<Rightarrow> (string \<times> IndexEntry list) list
    \<Rightarrow> (string \<times> IndexEntry list) list" where
  "collectGroups [] groups = groups"
| "collectGroups (p # ps) groups = collectGroups ps (addEntry (pageGroup p) (pageEntry p) groups)"

text \<open>
  Groups and entries are ordered with \<open>String.prototype.localeCompare\<close>, the collation of
  the runtime's locale. A collation is a total preorder of the strings; it is the
  parameter \<open>collate\<close>, a function to sort keys in a linear order, with
  \<open>a.localeCompare(b) \<le> 0\<close> standing for \<open>collate a \<le> collate b\<close>. \<open>Array.prototype.sort\<close>
  is stable.
\<close>

definition indexSections ::
  "(string \<Rightarrow> 'k::linorder) \<Rightarrow> Page list \<Rightarrow> (string \<times> IndexEntry list) list" where
  \<comment> \<open>for each group of \<open>sortedGroups\<close>, the group with its sorted \<open>entries\<close>\<close>
  "indexSections collate pages =
     (let indexGroups = collectGroups pages [];
          sortedGroups = sort_key collate (map fst indexGroups)
      in map (\<lambda>group.
                (group, sort_key (\<lambda>e. collate (entryRelPath e))
                          (case map_of indexGroups group of None \<Rightarrow> [] | Some es \<Rightarrow> es)))
           sortedGroups)"

definition emDash :: string where
  \<comment> \<open>U+2014, outside the code units of the embedding: its UTF-8 bytes, passed through\<close>
  "emDash = [CHR 0xE2, CHR 0x80, CHR 0x94]"

definition entryLine :: "IndexEntry \<Rightarrow> string" where
  "entryLine e =
     (let summary = (if entrySummary e \<noteq> [] then '' '' @ emDash @ '' '' @ entrySummary e else [])
      in ''- ['' @ entryTitle e @ '']('' @ entryUrl e @ '')'' @ summary)"

definition sectionLines :: "string \<times> IndexEntry list \<Rightarrow> string list" where
  "sectionLines sec = (''## '' @ fst sec) # map entryLine (snd sec) @ [[]]"

definition provenanceLine :: "string \<Rightarrow> string \<Rightarrow> string" where
  "provenanceLine timestamp commit = ''Last updated: '' @ timestamp @ '' (commit '' @ commit @ '')''"

definition indexText :: "(string \<Rightarrow> 'k::linorder) \<Rightarrow> string \<Rightarrow> string \<Rightarrow> Page list \<Rightarrow> string" where
  "indexText collate timestamp commit pages =
     (let indexLines =
            [''# Craft CMS Documentation Index'', provenanceLine timestamp commit, []]
              @ concat (map sectionLines (indexSections collate pages))
      in trimEnd (joinLines indexLines) @ [CHR 0x0A])"

definition fullText :: "string \<Rightarrow> string \<Rightarrow> Page list \<Rightarrow> string" where
  "fullText timestamp commit pages =
     (let headerLines =
            [''# Craft CMS Documentation'',
             ''Craft CMS 5.x documentation covering installation, configuration, templating, and extension points.'',
             provenanceLine timestamp commit, []];
          pageChunks = concat (map pageChunk pages)
      in joinLines headerLines @ [CHR 0x0A] @ trimEnd (joinLines pageChunks) @ [CHR 0x0A])"

definition build ::
  "(string \<Rightarrow> 'k::linorder) \<Rightarrow> string \<Rightarrow> string \<Rightarrow> string \<Rightarrow> SourceFile list \<Rightarrow> string \<times> string \<times> nat" where
  \<comment> \<open>\<open>config.baseUrl\<close>, the meta data of the repository and the files found: the text of
      \<open>llms-full.txt\<close>, the text of \<open>llms.txt\<close> and \<open>totalFiles\<close>\<close>
  "build collate configBaseUrl timestamp commit files =
     (let baseUrl = ensureTrailingSlash configBaseUrl;
          pages = map (processFile baseUrl) files
      in (fullText timestamp commit pages, indexText collate timestamp commit pages, length files))"

text \<open>
  The per-file pipeline in the order of the specification's data flow, Include Expander
  first: the text that the build's steps receive is the expansion of the file's text.
\<close>

definition specProcessFile ::
  "(string \<rightharpoonup> string) \<Rightarrow> string \<Rightarrow> string \<Rightarrow> string \<Rightarrow> string \<Rightarrow> SourceFile
    \<Rightarrow> includeError + Page" where
  \<comment> \<open>storage, the working directory, the repository root and the absolute path of the
      file, then the arguments of \<open>processFile\<close>\<close>
  "specProcessFile fs cwd root absPath baseUrl f =
     (case snd (expandIncludeDirectives fs cwd (raw f) root absPath None) of
        Inl e \<Rightarrow> Inl e
      | Inr expanded \<Rightarrow> Inr (processFile baseUrl (f\<lparr>raw := expanded\<rparr>)))"

section \<open>Notions of the specification\<close>

text \<open>
  A directory path is clean when each of its segments is a name: none is empty, \<open>.\<close> or
  \<open>..\<close>. A doc path is an index document when its last segment is \<open>readme.md\<close> or
  \<open>index.md\<close>, whatever the case of its letters.
\<close>

definition cleanPath :: "string \<Rightarrow> bool" where
  "cleanPath dir = (\<forall>s \<in> set (splitOn CHR ''/'' dir). s \<noteq> [] \<and> s \<noteq> ''.'' \<and> s \<noteq> ''..'')"

definition isIndexDoc :: "string \<Rightarrow> bool" where
  "isIndexDoc p =
     (let l = toLowerCase p
      in l = ''readme.md'' \<or> endsWith ''/readme.md'' l \<or> l = ''index.md'' \<or> endsWith ''/index.md'' l)"




text \<open>
  A line opens a fence when no fence is open and its trimmed form starts with a fence
  marker; it closes the fence when a fence is open and the line's marker is the one that
  opened it. A fence marker starts with a backtick or a tilde.
\<close>

definition opensFence :: "FenceState \<Rightarrow> string \<Rightarrow> bool" where
  "opensFence state line = (\<not> inFence state \<and> fenceMarkerOf line \<noteq> [])"

definition closesFence :: "FenceState \<Rightarrow> string \<Rightarrow> bool" where
  "closesFence state line =
     (inFence state \<and> fenceMarkerOf line \<noteq> [] \<and> fenceMarker state = fenceMarkerOf line)"

definition fenceChar :: "char \<Rightarrow> bool" where
  "fenceChar c = (c = CHR 0x60 \<or> c = CHR ''~'')"


text \<open>
  A repository under \<open>/r\<close> in which \<open>a.md\<close> is one inclusion directive for \<open>b.md\<close>.
\<close>

definition includeFs :: "string \<rightharpoonup> string" where
  "includeFs = map_of [(''/r/a.md'', ''!!!include(b.md)!!!''), (''/r/b.md'', ''Included text'')]"

definition includeFile :: SourceFile where
  "includeFile = \<lparr>relPath = ''a.md'', fallbackTitle = ''a'', raw = ''!!!include(b.md)!!!''\<rparr>"

text \<open>
  The resolved, normalized absolute path of an inclusion directive, and the security
  condition on it: the path is the repository root or starts with the root followed by the
  path separator.
\<close>

definition includeTarget :: "string \<Rightarrow> string \<Rightarrow> string \<Rightarrow> string \<Rightarrow> string" where
  "includeTarget cwd includePath root currentFilePath =
     posix_resolve cwd
       [if startsWith ''/'' includePath then posix_join [root, stripLeadingSlashes includePath]
        else if startsWith ''.'' includePath
        then posix_resolve cwd [posix_dirname currentFilePath, includePath]
        else posix_join [root, includePath]]"

definition underRoot :: "string \<Rightarrow> string \<Rightarrow> string \<Rightarrow> bool" where
  "underRoot cwd root p =
     (p = posix_resolve cwd [root] \<or> startsWith (posix_resolve cwd [root] @ ''/'') p)"

text \<open>
  A text whose second directive names a file outside the repository root \<open>/r\<close>.
\<close>

definition escapeContent :: string where
  "escapeContent = ''See !!!include(b.md)!!! and !!!include(../secret.txt)!!!''"

definition escapeFs :: "string \<rightharpoonup> string" where
  "escapeFs = map_of [(''/r/b.md'', ''Included text''), (''/secret.txt'', ''Secret'')]"

text \<open>
  The cache is coherent when each of its entries is the content that storage has at the path.
\<close>

definition coherent :: "expandEnv \<Rightarrow> expandState \<Rightarrow> bool" where
  "coherent E st = (cache st \<subseteq>\<^sub>m fileSystem E)"

text \<open>
  The environment and the initial state of a call of \<open>expandIncludeDirectives\<close>.
\<close>

definition expandEnvOf :: "(string \<rightharpoonup> string) \<Rightarrow> string \<Rightarrow> string \<Rightarrow> int option \<Rightarrow> expandEnv" where
  "expandEnvOf fs cwd optRepoRoot optMaxDepth =
     \<lparr>fileSystem = fs, workingDir = cwd, repoRoot = posix_resolve cwd [optRepoRoot],
      maxDepth = (case optMaxDepth of None \<Rightarrow> 5 | Some d \<Rightarrow> d)\<rparr>"

definition freshState :: expandState where
  "freshState = \<lparr>cache = Map.empty, reads = []\<rparr>"

text \<open>
  The include graph: a text with its path has an edge to each readable file that one of
  its directives resolves to. A cycle is reachable from a node when some node reachable from
  it reaches itself. An include chain from a node is a list of nodes, each one included by
  the one before it.
\<close>

definition includeStep :: "expandEnv \<Rightarrow> string \<times> string \<Rightarrow> string \<times> string \<Rightarrow> bool" where
  "includeStep E n m =
     ((\<exists>bg \<in> set (fst (includeMatches (fst n))).
         resolveIncludePath (workingDir E) (trim (snd bg)) (repoRoot E) (snd n) = Inr (snd m))
      \<and> fileSystem E (snd m) = Some (fst m))"

definition cyclicFrom :: "expandEnv \<Rightarrow> string \<times> string \<Rightarrow> bool" where
  "cyclicFrom E n = (\<exists>m. rtranclp (includeStep E) n m \<and> tranclp (includeStep E) m m)"

fun includeChain :: "expandEnv \<Rightarrow> string \<times> string \<Rightarrow> (string \<times> string) list \<Rightarrow> bool" where
  "includeChain E n [] = True"
| "includeChain E n (m # ms) = (includeStep E n m \<and> includeChain E m ms)"

text \<open>
  The complete inlined text of a text: every directive replaced by the complete inlined
  text of the file it names. \<open>inlineWithin E k\<close> gives it when the include tree is nested at
  most \<open>k\<close> levels deep and every directive in it resolves inside the root to a readable
  file, and nothing otherwise. It knows no stack, no cache and no order of failures.
\<close>

function inlineWithin :: "expandEnv \<Rightarrow> nat \<Rightarrow> string \<Rightarrow> string \<Rightarrow> string option"
  and inlineEachWithin :: "expandEnv \<Rightarrow> nat \<Rightarrow> (string \<times> string) list \<Rightarrow> string \<Rightarrow> string option"
where
  "inlineWithin E k input fp =
     (case includeMatches input of
        (ms, rest) \<Rightarrow>
          (case inlineEachWithin E k ms fp of None \<Rightarrow> None | Some r \<Rightarrow> Some (r @ rest)))"
| "inlineEachWithin E k [] fp = Some []"
| "inlineEachWithin E 0 ((before, g) # ms) fp = None"
| "inlineEachWithin E (Suc k) ((before, g) # ms) fp =
     (case resolveIncludePath (workingDir E) (trim g) (repoRoot E) fp of
        Inl e \<Rightarrow> None
      | Inr p \<Rightarrow>
          (case fileSystem E p of
             None \<Rightarrow> None
           | Some c \<Rightarrow>
               (case inlineWithin E k c p of
                  None \<Rightarrow> None
                | Some r \<Rightarrow>
                    (case inlineEachWithin E (Suc k) ms fp of
                       None \<Rightarrow> None
                     | Some r' \<Rightarrow> Some (before @ r @ r')))))"
  by pat_completeness auto
termination
  by (relation "inv_image (less_than <*lex*> less_than)
        (\<lambda>x. case x of
           Inl (E, k, input, fp) \<Rightarrow> (2 * k + 1, 0)
         | Inr (E, k, ms, fp) \<Rightarrow> (2 * k, length ms))")
    auto

text \<open>
  The loop reaches directive number \<open>i\<close> of a text at depth \<open>d\<close> when the directives before
  it expand fully within the depth that remains; \<open>directiveTarget\<close> is what that directive
  resolves to. A branch follows one directive per text: each entry names the number of the
  directive followed, the file it resolves to and the content of that file, and the
  directive is reached. \<open>branch\<close> gives the last text of the branch with its path.
\<close>

definition reachesDirective :: "expandEnv \<Rightarrow> int \<Rightarrow> string \<Rightarrow> string \<Rightarrow> nat \<Rightarrow> bool" where
  "reachesDirective E d input fp i =
     (i < length (fst (includeMatches input))
      \<and> inlineEachWithin E (nat (maxDepth E - d)) (take i (fst (includeMatches input))) fp \<noteq> None)"

definition directiveTarget :: "expandEnv \<Rightarrow> string \<Rightarrow> string \<Rightarrow> nat \<Rightarrow> includeError + string" where
  "directiveTarget E input fp i =
     resolveIncludePath (workingDir E) (trim (snd (fst (includeMatches input) ! i))) (repoRoot E) fp"

fun branch ::
  "expandEnv \<Rightarrow> int \<Rightarrow> string \<Rightarrow> string \<Rightarrow> (nat \<times> string \<times> string) list \<Rightarrow> (string \<times> string) option"
where
  "branch E d input fp [] = Some (input, fp)"
| "branch E d input fp ((i, p, c) # chain) =
     (if reachesDirective E d input fp i \<and> directiveTarget E input fp i = Inr p
         \<and> fileSystem E p = Some c
      then branch E (d + 1) c p chain else None)"

text \<open>
  The paths on the stack are ancestors of the text being expanded: each is a readable file
  from which the text is reachable in the include graph.
\<close>

definition ancestors :: "expandEnv \<Rightarrow> string set \<Rightarrow> string \<times> string \<Rightarrow> bool" where
  "ancestors E stack n =
     (\<forall>q \<in> stack. \<exists>c. fileSystem E q = Some c \<and> rtranclp (includeStep E) (c, q) n)"

text \<open>
  A chain of six files, a cycle of six files, and the cycle of two files A and B.
\<close>

definition sixChain :: "(string \<times> string) list" where
  "sixChain =
     [(''/r/f1.md'', ''1[!!!include(f2.md)!!!]''),
      (''/r/f2.md'', ''2[!!!include(f3.md)!!!]''),
      (''/r/f3.md'', ''3[!!!include(f4.md)!!!]''),
      (''/r/f4.md'', ''4[!!!include(f5.md)!!!]''),
      (''/r/f5.md'', ''5[!!!include(f6.md)!!!]''),
      (''/r/f6.md'', ''6'')]"

definition sixCycle :: "(string \<times> string) list" where
  "sixCycle =
     [(''/r/c1.md'', ''1[!!!include(c2.md)!!!]''),
      (''/r/c2.md'', ''2[!!!include(c3.md)!!!]''),
      (''/r/c3.md'', ''3[!!!include(c4.md)!!!]''),
      (''/r/c4.md'', ''4[!!!include(c5.md)!!!]''),
      (''/r/c5.md'', ''5[!!!include(c6.md)!!!]''),
      (''/r/c6.md'', ''6[!!!include(c1.md)!!!]'')]"

definition twoCycle :: "(string \<times> string) list" where
  "twoCycle =
     [(''/r/b.md'', ''B[!!!include(a.md)!!!]''),
      (''/r/a.md'', ''A[!!!include(b.md)!!!]'')]"

text \<open>
  The chain of six files with a leaf file beside it; a content that includes the leaf and
  then starts the chain, one that includes the leaf seven times, and one that includes an
  unreadable file and then starts the chain; the branches through the chain and through the
  cycle of two files; a file that includes itself, behind an unreadable one.
\<close>

definition leafChain :: "(string \<times> string) list" where
  "leafChain = (''/r/leaf.md'', ''L'') # sixChain"

definition behindSibling :: string where
  "behindSibling = ''!!!include(leaf.md)!!!0[!!!include(f1.md)!!!]''"

definition sevenLeaves :: string where
  "sevenLeaves = concat (replicate 7 ''!!!include(leaf.md)!!!'')"

definition missingThenChain :: string where
  "missingThenChain = ''!!!include(missing.md)!!!0[!!!include(f1.md)!!!]''"

definition siblingBranch :: "(nat \<times> string \<times> string) list" where
  "siblingBranch = (1, hd sixChain) # map (Pair 0) (tl sixChain)"

definition twoBranch :: "(nat \<times> string \<times> string) list" where
  "twoBranch = map (Pair 0) twoCycle"

definition missingThenCycle :: string where
  "missingThenCycle = ''!!!include(missing.md)!!! !!!include(a.md)!!!''"

definition selfFs :: "(string \<times> string) list" where
  "selfFs = [(''/r/a.md'', ''!!!include(a.md)!!!'')]"

text \<open>
  The URL of a link destination is the part that \<open>normalizeLinkDestination\<close> hands to
  \<open>normalizeDocLink\<close>: with the surrounding white space trimmed, the text between \<open><\<close> and
  the first \<open>>\<close> when the destination opens with \<open><\<close> and has a \<open>>\<close>, otherwise the run of
  leading non-space characters; a blank destination has none. A URL is left untouched when
  it is empty, a fragment, protocol-relative or carries a scheme.
\<close>

definition destinationUrl :: "string \<Rightarrow> string option" where
  "destinationUrl rawDestination =
     (let inner = trim rawDestination
      in if inner = [] then None
         else (case (if startsWith ''<'' inner then breakAt CHR ''>'' inner else None) of
                 Some (a, rest) \<Rightarrow> Some (drop 1 a)
               | None \<Rightarrow> Some (takeWhile (\<lambda>c. \<not> isSpace c) inner)))"

definition leftUntouched :: "string \<Rightarrow> bool" where
  "leftUntouched url = (url = [] \<or> startsWith ''#'' url \<or> startsWith ''//'' url \<or> hasScheme url)"

section \<open>Strings and paths: basic facts\<close>

lemma toLowerChar_cases:
  "toLowerChar c = c \<or> (c, toLowerChar c) \<in> set (zip upperChars lowerChars)"
  unfolding toLowerChar_def
  by (cases "map_of (zip upperChars lowerChars) c") (auto dest: map_of_SomeD)

lemma toLowerChar_fixed: "c \<notin> set upperChars \<Longrightarrow> toLowerChar c = c"
proof -
  assume "c \<notin> set upperChars"
  then have "c \<notin> fst ` set (zip upperChars lowerChars)"
    by (auto dest: set_zip_leftD)
  then have "map_of (zip upperChars lowerChars) c = None"
    by (simp add: map_of_eq_None_iff)
  then show ?thesis by (simp add: toLowerChar_def)
qed

lemma toLowerChar_slash: "toLowerChar c = CHR ''/'' \<longleftrightarrow> c = CHR ''/''"
proof
  assume l: "toLowerChar c = CHR ''/''"
  from toLowerChar_cases [of c] show "c = CHR ''/''"
  proof
    assume "toLowerChar c = c" with l show ?thesis by simp
  next
    assume "(c, toLowerChar c) \<in> set (zip upperChars lowerChars)"
    then have "CHR ''/'' \<in> set lowerChars" unfolding l by (rule set_zip_rightD)
    then show ?thesis by (simp add: lowerChars_def)
  qed
next
  assume "c = CHR ''/''"
  then show "toLowerChar c = CHR ''/''"
    by (simp add: toLowerChar_fixed upperChars_def)
qed

lemma toLowerChar_dot: "toLowerChar c = CHR ''.'' \<longleftrightarrow> c = CHR ''.''"
proof
  assume l: "toLowerChar c = CHR ''.''"
  from toLowerChar_cases [of c] show "c = CHR ''.''"
  proof
    assume "toLowerChar c = c" with l show ?thesis by simp
  next
    assume "(c, toLowerChar c) \<in> set (zip upperChars lowerChars)"
    then have "CHR ''.'' \<in> set lowerChars" unfolding l by (rule set_zip_rightD)
    then show ?thesis by (simp add: lowerChars_def)
  qed
next
  assume "c = CHR ''.''"
  then show "toLowerChar c = CHR ''.''"
    by (simp add: toLowerChar_fixed upperChars_def)
qed

lemma toLowerChar_m: "toLowerChar c = CHR ''m'' \<longleftrightarrow> c = CHR ''m'' \<or> c = CHR ''M''"
proof
  assume l: "toLowerChar c = CHR ''m''"
  from toLowerChar_cases [of c] show "c = CHR ''m'' \<or> c = CHR ''M''"
  proof
    assume "toLowerChar c = c" with l show ?thesis by simp
  next
    assume "(c, toLowerChar c) \<in> set (zip upperChars lowerChars)"
    then show ?thesis unfolding l by (simp add: upperChars_def lowerChars_def)
  qed
next
  assume "c = CHR ''m'' \<or> c = CHR ''M''"
  then show "toLowerChar c = CHR ''m''"
    by (elim disjE) (simp_all add: toLowerChar_def upperChars_def lowerChars_def)
qed

lemma toLowerChar_d: "toLowerChar c = CHR ''d'' \<longleftrightarrow> c = CHR ''d'' \<or> c = CHR ''D''"
proof
  assume l: "toLowerChar c = CHR ''d''"
  from toLowerChar_cases [of c] show "c = CHR ''d'' \<or> c = CHR ''D''"
  proof
    assume "toLowerChar c = c" with l show ?thesis by simp
  next
    assume "(c, toLowerChar c) \<in> set (zip upperChars lowerChars)"
    then show ?thesis unfolding l by (simp add: upperChars_def lowerChars_def)
  qed
next
  assume "c = CHR ''d'' \<or> c = CHR ''D''"
  then show "toLowerChar c = CHR ''d''"
    by (elim disjE) (simp_all add: toLowerChar_def upperChars_def lowerChars_def)
qed

lemma joinWith_splitOn: "joinWith [d] (splitOn d s) = s"
proof (induction s)
  case Nil
  show ?case by simp
next
  case (Cons c s)
  show ?case
  proof (cases "c = d")
    case True
    with Cons show ?thesis by (cases "splitOn d s") auto
  next
    case False
    with Cons show ?thesis
      by (cases "splitOn d s"; cases "tl (splitOn d s)") auto
  qed
qed

lemma splitOn_nonempty [simp]: "splitOn d s \<noteq> []"
  by (induction s) (auto split: list.splits)

lemma splitOn_append_sep: "splitOn d (a @ d # b) = splitOn d a @ splitOn d b"
  by (induction a) (auto split: list.splits)

lemma splitOn_no_sep: "d \<notin> set s \<Longrightarrow> splitOn d s = [s]"
  by (induction s) auto

lemma endsWith_append: "endsWith (a @ b) s \<Longrightarrow> endsWith b s"
  unfolding endsWith_def by (simp add: append_prefixD)

lemma dirnameScan_segment:
  "xs \<noteq> [] \<Longrightarrow> CHR ''/'' \<notin> set xs \<Longrightarrow> dirnameScan (xs @ CHR ''/'' # ys) b = Some (rev ys)"
proof (induction xs arbitrary: b)
  case Nil
  then show ?case by simp
next
  case (Cons x xs)
  then show ?case by (cases xs) auto
qed

lemma posix_dirname_segment:
  assumes "name \<noteq> []" "CHR ''/'' \<notin> set name" "dir \<noteq> []" "last dir \<noteq> CHR ''/''"
  shows "posix_dirname (dir @ ''/'' @ name) = dir"
proof -
  obtain c cs where dir: "dir = c # cs" using assms(3) by (cases dir) auto
  have scan: "dirnameScan (rev (cs @ ''/'' @ name)) True = Some cs"
    using dirnameScan_segment [of "rev name" "rev cs" True] assms(1,2) by simp
  have "\<not> (c = CHR ''/'' \<and> cs = [])" using assms(4) dir by auto
  then show ?thesis
    using scan by (auto simp: posix_dirname_def dir Let_def)
qed

lemma posix_dirname_plain: "CHR ''/'' \<notin> set name \<Longrightarrow> name \<noteq> [] \<Longrightarrow> posix_dirname name = ''.''"
proof -
  have scan: "CHR ''/'' \<notin> set xs \<Longrightarrow> dirnameScan xs b = None" for xs b
    by (induction xs arbitrary: b) auto
  assume "CHR ''/'' \<notin> set name" "name \<noteq> []"
  then show ?thesis
    by (cases name) (auto simp: posix_dirname_def Let_def scan)
qed

lemma normSegs_clean:
  "\<forall>s \<in> set ss. s \<noteq> [] \<and> s \<noteq> ''.'' \<and> s \<noteq> ''..'' \<Longrightarrow> normSegs a st ss = rev st @ ss"
  by (induction ss arbitrary: st) auto

lemma cleanPath_no_empty: "cleanPath dir \<Longrightarrow> [] \<notin> set (splitOn CHR ''/'' dir)"
  unfolding cleanPath_def by blast

lemma cleanPath_nonempty: "cleanPath dir \<Longrightarrow> dir \<noteq> []"
proof
  assume c: "cleanPath dir" and "dir = []"
  then have "[] \<in> set (splitOn CHR ''/'' dir)" by simp
  with cleanPath_no_empty [OF c] show False by simp
qed

lemma cleanPath_hd: "cleanPath dir \<Longrightarrow> hd dir \<noteq> CHR ''/''"
proof
  assume c: "cleanPath dir" and h: "hd dir = CHR ''/''"
  from c have "dir \<noteq> []" by (rule cleanPath_nonempty)
  with h obtain r where "dir = CHR ''/'' # r" by (cases dir) auto
  then have "[] \<in> set (splitOn CHR ''/'' dir)" by simp
  with cleanPath_no_empty [OF c] show False by simp
qed

lemma cleanPath_last: "cleanPath dir \<Longrightarrow> last dir \<noteq> CHR ''/''"
proof
  assume c: "cleanPath dir" and l: "last dir = CHR ''/''"
  from c have "dir \<noteq> []" by (rule cleanPath_nonempty)
  with l have "dir = butlast dir @ CHR ''/'' # []" by (metis append_butlast_last_id)
  then have "splitOn CHR ''/'' dir = splitOn CHR ''/'' (butlast dir) @ splitOn CHR ''/'' []"
    using splitOn_append_sep [of "CHR ''/''" "butlast dir" "[]"] by simp
  then have "[] \<in> set (splitOn CHR ''/'' dir)" by simp
  with cleanPath_no_empty [OF c] show False by simp
qed

lemma posix_join_clean:
  assumes "cleanPath dir"
  shows "posix_join [dir, ''index.html''] = dir @ ''/index.html''"
proof -
  let ?p = "dir @ ''/index.html''"
  have ne: "dir \<noteq> []" using assms by (rule cleanPath_nonempty)
  have split: "splitOn CHR ''/'' ?p = splitOn CHR ''/'' dir @ [''index.html'']"
    using splitOn_append_sep [of "CHR ''/''" dir "''index.html''"] by simp
  have "normSegs True [] (splitOn CHR ''/'' ?p) = splitOn CHR ''/'' ?p"
    using assms normSegs_clean [of "splitOn CHR ''/'' ?p" True "[]"]
    unfolding split by (auto simp: cleanPath_def)
  then have ns: "normalizeString ?p True = ?p"
    using joinWith_splitOn [of "CHR ''/''" ?p] by (simp add: normalizeString_def)
  have hd: "hd ?p \<noteq> CHR ''/''" using cleanPath_hd [OF assms] ne by simp
  have "posix_normalize ?p = ?p"
    using ns hd by (simp add: posix_normalize_def Let_def)
  then show ?thesis using ne by (simp add: posix_join_def)
qed

lemma toLowerCase_append: "toLowerCase (a @ b) = toLowerCase a @ toLowerCase b"
  by (simp add: toLowerCase_def)

lemma toLowerCase_slash: "toLowerCase (CHR ''/'' # s) = CHR ''/'' # toLowerCase s"
  using toLowerChar_slash [of "CHR ''/''"] by (simp add: toLowerCase_def)

lemma endsWith_appendI: "endsWith b (a @ b)"
  by (simp add: endsWith_def)

lemma lower_name_props:
  assumes "toLowerCase name = ''readme.md'' \<or> toLowerCase name = ''index.md''"
  shows "name \<noteq> []" "CHR ''/'' \<notin> set name"
proof -
  show "name \<noteq> []"
  proof
    assume "name = []"
    then have "toLowerCase name = []" by (simp add: toLowerCase_def)
    with assms show False by simp
  qed
  show "CHR ''/'' \<notin> set name"
  proof
    assume "CHR ''/'' \<in> set name"
    then have "toLowerChar CHR ''/'' \<in> toLowerChar ` set name" by (rule imageI)
    moreover have "toLowerChar CHR ''/'' = CHR ''/''" by (simp add: toLowerChar_slash)
    ultimately have in_lower: "CHR ''/'' \<in> set (toLowerCase name)" by (simp add: toLowerCase_def)
    have "CHR ''/'' \<notin> set ''readme.md''" "CHR ''/'' \<notin> set ''index.md''" by simp_all
    with in_lower assms show False by metis
  qed
qed

lemma mapDocPath_index:
  "isIndexDoc p \<Longrightarrow> mapDocPath p = posix_join [posix_dirname p, ''index.html'']"
  by (auto simp: mapDocPath_def isIndexDoc_def Let_def)

lemma mapDocPath_index_plain:
  assumes "toLowerCase name = ''readme.md'' \<or> toLowerCase name = ''index.md''"
  shows "mapDocPath name = ''index.html''"
proof -
  have "isIndexDoc name" using assms unfolding isIndexDoc_def Let_def by blast
  moreover have "posix_dirname name = ''.''"
    using lower_name_props [OF assms] by (simp add: posix_dirname_plain)
  moreover have "posix_join [''.'', ''index.html''] = ''index.html''"
    by (simp add: posix_join_def posix_normalize_def normalizeString_def Let_def)
  ultimately show ?thesis by (simp add: mapDocPath_index)
qed

lemma mapDocPath_index_dir:
  assumes "toLowerCase name = ''readme.md'' \<or> toLowerCase name = ''index.md''" "cleanPath dir"
  shows "mapDocPath (dir @ ''/'' @ name) = dir @ ''/index.html''"
proof -
  have dn: "posix_dirname (dir @ ''/'' @ name) = dir"
    using lower_name_props [OF assms(1)] cleanPath_nonempty [OF assms(2)] cleanPath_last [OF assms(2)]
    by (intro posix_dirname_segment) auto
  have low: "toLowerCase (dir @ ''/'' @ name) = toLowerCase dir @ (''/'' @ toLowerCase name)"
    by (simp add: toLowerCase_append toLowerCase_slash)
  have "endsWith (''/'' @ toLowerCase name) (toLowerCase (dir @ ''/'' @ name))"
    unfolding low by (rule endsWith_appendI)
  with assms(1) have "isIndexDoc (dir @ ''/'' @ name)"
    unfolding isIndexDoc_def Let_def by auto
  then show ?thesis
    using posix_join_clean [OF assms(2)] dn by (simp add: mapDocPath_index)
qed

lemma replaceMdExt_swap:
  assumes "endsWith ''.md'' (toLowerCase p)"
  shows "replaceMdExt p = take (length p - 3) p @ ''.html''"
proof -
  from assms obtain zs where "map toLowerChar (rev p) = ''dm.'' @ zs"
    by (auto simp: endsWith_def toLowerCase_def prefix_def rev_map)
  then obtain d m dot r where r: "rev p = d # m # dot # r" and
      c: "toLowerChar d = CHR ''d''" "toLowerChar m = CHR ''m''" "toLowerChar dot = CHR ''.''"
    by (cases "rev p"; cases "tl (rev p)"; cases "tl (tl (rev p))") auto
  from r have "rev (rev p) = rev (d # m # dot # r)" by simp
  then have p: "p = rev r @ [dot, m, d]" by simp
  have t: "take (length p - 3) p = rev r" by (simp add: p)
  from c have "dot = CHR ''.''" "m = CHR ''m'' \<or> m = CHR ''M''" "d = CHR ''d'' \<or> d = CHR ''D''"
    by (simp_all add: toLowerChar_dot toLowerChar_m toLowerChar_d)
  then show ?thesis unfolding t by (auto simp: replaceMdExt_def r)
qed

lemma mapDocPath_md:
  "endsWith ''.md'' (toLowerCase p) \<Longrightarrow> \<not> isIndexDoc p \<Longrightarrow> mapDocPath p = take (length p - 3) p @ ''.html''"
  by (auto simp: mapDocPath_def isIndexDoc_def Let_def replaceMdExt_swap)

lemma isIndexDoc_md: "isIndexDoc p \<Longrightarrow> endsWith ''.md'' (toLowerCase p)"
proof -
  have a: "endsWith ''/readme.md'' l \<Longrightarrow> endsWith ''.md'' l" for l
    using endsWith_append [of "''/readme''" "''.md''" l] by simp
  have b: "endsWith ''/index.md'' l \<Longrightarrow> endsWith ''.md'' l" for l
    using endsWith_append [of "''/index''" "''.md''" l] by simp
  have c: "endsWith ''.md'' ''readme.md''" "endsWith ''.md'' ''index.md''"
    by (simp_all add: endsWith_def)
  assume "isIndexDoc p"
  then show ?thesis unfolding isIndexDoc_def Let_def using a b c by metis
qed

lemma mapDocPath_other: "\<not> endsWith ''.md'' (toLowerCase p) \<Longrightarrow> mapDocPath p = p"
  using isIndexDoc_md [of p] by (auto simp: mapDocPath_def isIndexDoc_def Let_def)


section \<open>Doc path mapping: the claims\<close>

lemma lower_README: "toLowerCase ''README.md'' = ''readme.md''"
  by code_simp

lemma cleanPath_guides: "cleanPath ''guides''"
  by (simp add: cleanPath_def)

lemma other_md_Page: "endsWith ''.md'' (toLowerCase ''a/Page.MD'') \<and> \<not> isIndexDoc ''a/Page.MD''"
  by code_simp

lemma not_md_png: "\<not> endsWith ''.md'' (toLowerCase ''img/a.png'')"
  by code_simp

text \<open>
  C8. \<open>docPathToUrl\<close> puts the base URL, forced to end with a slash, before the mapped
  path (backslashes turned into slashes, one leading slash dropped before and after the
  mapping). The mapping sends a path whose last segment is \<open>readme.md\<close> or \<open>index.md\<close>
  in any case of letters to \<open>index.html\<close> of its directory (\<open>index.html\<close> alone when
  there is no directory), swaps the extension of every other \<open>.md\<close> path for \<open>.html\<close>, and
  leaves every other path as it is; \<open>docPathToUrl("system/updates.md",
  "https://x/docs/5.x/")\<close> is \<open>"https://x/docs/5.x/system/updates.html"\<close>.
\<close>

theorem docPathToUrl_mapping:
  "docPathToUrl rel base =
     ensureTrailingSlash base @ stripLeadingSlash (mapDocPath (stripLeadingSlash (backslashesToSlashes rel)))
   \<and> (toLowerCase name = ''readme.md'' \<or> toLowerCase name = ''index.md'' \<longrightarrow>
        mapDocPath name = ''index.html''
        \<and> (cleanPath dir \<longrightarrow> mapDocPath (dir @ ''/'' @ name) = dir @ ''/index.html''))
   \<and> (endsWith ''.md'' (toLowerCase p) \<and> \<not> isIndexDoc p \<longrightarrow>
        mapDocPath p = take (length p - 3) p @ ''.html'')
   \<and> (\<not> endsWith ''.md'' (toLowerCase p) \<longrightarrow> mapDocPath p = p)
   \<and> docPathToUrl ''system/updates.md'' ''https://x/docs/5.x/'' = ''https://x/docs/5.x/system/updates.html''"
proof (intro conjI impI)
  show "docPathToUrl rel base =
     ensureTrailingSlash base @ stripLeadingSlash (mapDocPath (stripLeadingSlash (backslashesToSlashes rel)))"
    by (simp add: docPathToUrl_def Let_def)
next
  assume "toLowerCase name = ''readme.md'' \<or> toLowerCase name = ''index.md''"
  then show "mapDocPath name = ''index.html''" by (rule mapDocPath_index_plain)
next
  assume "toLowerCase name = ''readme.md'' \<or> toLowerCase name = ''index.md''" "cleanPath dir"
  then show "mapDocPath (dir @ ''/'' @ name) = dir @ ''/index.html''" by (rule mapDocPath_index_dir)
next
  assume "endsWith ''.md'' (toLowerCase p) \<and> \<not> isIndexDoc p"
  then show "mapDocPath p = take (length p - 3) p @ ''.html''" by (simp add: mapDocPath_md)
next
  assume "\<not> endsWith ''.md'' (toLowerCase p)"
  then show "mapDocPath p = p" by (rule mapDocPath_other)
next
  show "docPathToUrl ''system/updates.md'' ''https://x/docs/5.x/'' = ''https://x/docs/5.x/system/updates.html''"
    by code_simp
qed

theorem docPathToUrl_mapping_witness:
  "toLowerCase ''README.md'' = ''readme.md''
   \<and> cleanPath ''guides''
   \<and> endsWith ''.md'' (toLowerCase ''a/Page.MD'') \<and> \<not> isIndexDoc ''a/Page.MD''
   \<and> \<not> endsWith ''.md'' (toLowerCase ''img/a.png'')
   \<and> docPathToUrl ''guides/README.md'' ''https://x/docs/5.x'' = ''https://x/docs/5.x/guides/index.html''
   \<and> mapDocPath ''README.md'' = ''index.html''
   \<and> mapDocPath ''guides/README.md'' = ''guides/index.html''
   \<and> mapDocPath ''a/Page.MD'' = ''a/Page.html''
   \<and> mapDocPath ''img/a.png'' = ''img/a.png''"
  using docPathToUrl_mapping [of "''guides/README.md''" "''https://x/docs/5.x''" "''README.md''" "''guides''" "''a/Page.MD''"]
    docPathToUrl_mapping [of "''guides/README.md''" "''https://x/docs/5.x''" "''README.md''" "''guides''" "''img/a.png''"]
    lower_README cleanPath_guides other_md_Page not_md_png
  by (simp add: ensureTrailingSlash_def endsWith_def stripLeadingSlash_def backslashesToSlashes_def)

section \<open>Component rewriter: the cloud tag\<close>

lemma toLowerChar_colon: "toLowerChar CHR '':'' = CHR '':''"
  by (simp add: toLowerChar_fixed upperChars_def)

lemma cloud_no_colon:
  assumes "toLowerCase tagName = ''cloud''"
  shows "CHR '':'' \<notin> set tagName"
proof
  assume "CHR '':'' \<in> set tagName"
  then have "toLowerChar CHR '':'' \<in> toLowerChar ` set tagName" by (rule imageI)
  then have "CHR '':'' \<in> set (toLowerCase tagName)"
    by (simp add: toLowerCase_def toLowerChar_colon)
  then show False unfolding assms by simp
qed

lemma componentText_cloud:
  "toLowerCase tagName = ''cloud'' \<Longrightarrow> componentText tagName as = []"
  by (simp add: componentText_def)

lemma cloud_lists:
  "''cloud'' \<notin> set STANDARD_HTML_TAGS" "''cloud'' \<notin> set DROP_COMPONENT_TAGS"
  "''cloud'' \<in> set INLINE_COMPONENT_TAGS"
  by (simp_all add: STANDARD_HTML_TAGS_def DROP_COMPONENT_TAGS_def INLINE_COMPONENT_TAGS_def)

lemma cloud_examples:
  "toLowerCase ''Cloud'' = ''cloud''"
  "\<not> startsWith ''</'' ''<Cloud />''"
  "startsWith ''</'' ''</Cloud>''"
  "matchTag ''<Cloud />'' = Some (''<Cloud />'', ''Cloud'', '' /'')"
  "matchTag ''<cloud>'' = Some (''<cloud>'', ''cloud'', [])"
  "matchTag ''</Cloud>'' = Some (''</Cloud>'', ''Cloud'', [])"
  "matchTag ''<Cloud/>'' = None"
  by code_simp+

text \<open>
  C5, as the code has it. The text computed for a \<open>cloud\<close> tag is empty whatever its
  attributes are, and the rewriter then falls back to the bare tag name: the callback of
  \<open>replaceComponentTags\<close> turns an opening or self-closing \<open>cloud\<close> tag into its tag name as
  written, and only a closing \<open>cloud\<close> tag into the empty text.
\<close>

theorem cloud_tag_rewrite:
  assumes "toLowerCase tagName = ''cloud''"
  shows "componentText tagName as = []
     \<and> (\<not> startsWith ''</'' match \<longrightarrow> tagReplacement match tagName attrPart = tagName)
     \<and> (startsWith ''</'' match \<longrightarrow> tagReplacement match tagName attrPart = [])"
  using cloud_no_colon [OF assms] cloud_lists
  by (simp add: tagReplacement_def Let_def assms componentText_cloud [OF assms])

theorem cloud_tag_rewrite_witness:
  "toLowerCase ''Cloud'' = ''cloud''
   \<and> \<not> startsWith ''</'' ''<Cloud />''
   \<and> startsWith ''</'' ''</Cloud>''
   \<and> tagReplacement ''<Cloud />'' ''Cloud'' '' /'' = ''Cloud''
   \<and> tagReplacement ''</Cloud>'' ''Cloud'' [] = []"
  using cloud_tag_rewrite [of "''Cloud''" "[]" "''<Cloud />''" "'' /''"]
    cloud_tag_rewrite [of "''Cloud''" "[]" "''</Cloud>''" "[]"] cloud_examples(1,2,3)
  by simp

text \<open>
  C5 as stated fails: outside a fence the self-closing tag \<open><Cloud />\<close> and the opening tag
  \<open><cloud>\<close> are rewritten to \<open>Cloud\<close> and \<open>cloud\<close>, not to the empty text.
\<close>

theorem cloud_tag_not_dropped:
  "stripVuePressDirectives ''On <Cloud /> and <cloud> only'' = ''On Cloud and cloud only''
   \<and> stripVuePressDirectives ''On <Cloud /> and <cloud> only'' \<noteq> ''On  and  only''"
  by code_simp

section \<open>Index assembly: order of sections and entries\<close>













section \<open>Fence-aware scanning\<close>

lemma trimEnd_prefix: "prefix (trimEnd t) t"
proof -
  have "rev (rev t) = rev (takeWhile isSpace (rev t) @ dropWhile isSpace (rev t))"
    by (simp only: takeWhile_dropWhile_id)
  then have "t = trimEnd t @ rev (takeWhile isSpace (rev t))"
    by (simp only: rev_rev_ident rev_append trimEnd_def)
  then show ?thesis by (metis prefixI)
qed

lemma trim_Cons_line:
  assumes "trim line = c # r"
  shows "\<exists>ws r'. line = ws @ c # r' \<and> (\<forall>w \<in> set ws. isSpace w) \<and> \<not> isSpace c"
proof -
  let ?t = "dropWhile isSpace line"
  from assms have "prefix (c # r) ?t"
    using trimEnd_prefix [of ?t] by (simp add: trim_def trimStart_def)
  then obtain r' where t: "?t = c # r'" by (auto simp: prefix_def)
  have "line = takeWhile isSpace line @ ?t" by simp
  moreover have "\<forall>w \<in> set (takeWhile isSpace line). isSpace w" by (auto dest: set_takeWhileD)
  moreover have "\<not> isSpace c" using t by (metis hd_dropWhile list.sel(1) list.distinct(1))
  ultimately show ?thesis using t by metis
qed

lemma fenceMarkerOf_cases:
  "fenceMarkerOf line \<noteq> [] \<Longrightarrow>
     (\<exists>r. trim line = CHR 0x60 # r) \<or> (\<exists>r. trim line = CHR ''~'' # r)"
  by (auto simp: fenceMarkerOf_def Let_def startsWith_def prefix_def split: if_splits)

lemma fenceMarkerOf_trim:
  "fenceMarkerOf line \<noteq> [] \<Longrightarrow> \<exists>c r. trim line = c # r \<and> fenceChar c"
  using fenceMarkerOf_cases [of line] by (auto simp: fenceChar_def)

lemma fence_line_not_directive:
  assumes "trim line = c # r" "fenceChar c"
  shows "\<not> startsWith '':::'' (trim line)" "\<not> startsWith ''!!!'' (trim line)"
  using assms by (auto simp: startsWith_def fenceChar_def)

lemma fence_line_not_heading:
  assumes "t = c # r" "fenceChar c"
  shows "\<not> isHeading t"
  using assms by (auto simp: isHeading_def fenceChar_def)

lemma fenceChar_props: "fenceChar c \<Longrightarrow> \<not> isSpace c \<and> \<not> isDigit c"
  by (auto simp: fenceChar_def isSpace_def isDigit_def)

lemma fence_line_not_list:
  assumes "t = c # r" "fenceChar c"
  shows "\<not> isListItem t"
  using assms fenceChar_props [OF assms(2)] by (auto simp: isListItem_def fenceChar_def)

lemma fence_line_not_tag:
  assumes "t = c # r" "fenceChar c"
  shows "\<not> isHtmlTagOnly t"
  using assms by (auto simp: isHtmlTagOnly_def fenceChar_def)

lemma fence_line_no_title:
  assumes "fenceMarkerOf line \<noteq> []"
  shows "matchTitle line = None"
proof -
  from fenceMarkerOf_trim [OF assms] obtain c r where t: "trim line = c # r" and f: "fenceChar c"
    by blast
  from trim_Cons_line [OF t] obtain ws r' where
    l: "line = ws @ c # r'" and ws: "\<forall>w \<in> set ws. isSpace w" by blast
  have "hd line \<noteq> CHR ''#''"
  proof (cases ws)
    case Nil
    with l f show ?thesis by (auto simp: fenceChar_def)
  next
    case (Cons w ws')
    with l ws have "hd line = w" "isSpace w" by auto
    then show ?thesis by (auto simp: isSpace_def)
  qed
  then show ?thesis by (cases line) (auto simp: matchTitle_def)
qed

lemma update_opens:
  "opensFence state line \<Longrightarrow>
     updateFenceState line state = \<lparr>inFence = True, fenceMarker = fenceMarkerOf line\<rparr>"
  by (simp add: opensFence_def updateFenceState_def Let_def)

lemma update_closes:
  "closesFence state line \<Longrightarrow> updateFenceState line state = noFence"
  by (simp add: closesFence_def updateFenceState_def Let_def noFence_def)

lemma update_inert:
  "inFence state \<Longrightarrow> fenceMarkerOf line \<noteq> fenceMarker state \<Longrightarrow> updateFenceState line state = state"
  by (simp add: updateFenceState_def Let_def)

lemma opening_line_fenced:
  assumes "opensFence state line"
  shows "inFence (updateFenceState line state)"
    "stripLoop state (line # rest) = line # stripLoop (updateFenceState line state) rest"
    "linksLoop cur base state (line # rest) = line # linksLoop cur base (updateFenceState line state) rest"
    "titleLoop state (line # rest) fb = titleLoop (updateFenceState line state) rest fb"
    "summaryLoop state para (line # rest) = summaryLoop (updateFenceState line state) para rest"
  by (simp_all add: update_opens [OF assms] Let_def)

lemma closing_line_classified:
  assumes "closesFence state line"
  shows "\<not> inFence (updateFenceState line state)"
    "stripLoop state (line # rest) =
       replaceComponentTags (stripHtmlComments line) # stripLoop noFence rest"
    "linksLoop cur base state (line # rest) =
       normalizeReferenceDefinition (replaceAll (matchInlineLink cur base) line) cur base
         # linksLoop cur base noFence rest"
    "titleLoop state (line # rest) fb = titleLoop noFence rest fb"
    "summaryLoop state para (line # rest) = summaryLoop noFence (para @ [trim line]) rest"
proof -
  have m: "fenceMarkerOf line \<noteq> []" using assms by (simp add: closesFence_def)
  from fenceMarkerOf_trim [OF m] obtain c r where t: "trim line = c # r" and f: "fenceChar c"
    by blast
  note u = update_closes [OF assms]
  show "\<not> inFence (updateFenceState line state)" by (simp add: u noFence_def)
  show "stripLoop state (line # rest) =
       replaceComponentTags (stripHtmlComments line) # stripLoop noFence rest"
    using fence_line_not_directive [OF t f] by (simp add: u Let_def noFence_def)
  show "linksLoop cur base state (line # rest) =
       normalizeReferenceDefinition (replaceAll (matchInlineLink cur base) line) cur base
         # linksLoop cur base noFence rest"
    by (simp add: u Let_def noFence_def)
  show "titleLoop state (line # rest) fb = titleLoop noFence rest fb"
    by (simp add: u Let_def fence_line_no_title [OF m] noFence_def)
  show "summaryLoop state para (line # rest) = summaryLoop noFence (para @ [trim line]) rest"
    using fence_line_not_heading [OF t f] fence_line_not_list [OF t f] fence_line_not_tag [OF t f]
    by (simp add: u Let_def noFence_def t)
qed

lemma summaryLoop_fenced_body:
  assumes "inFence state" "\<forall>l \<in> set body. fenceMarkerOf l \<noteq> fenceMarker state"
  shows "summaryLoop state para (body @ rest) = summaryLoop state para rest"
  using assms
proof (induction body)
  case Nil
  show ?case by simp
next
  case (Cons l body)
  then have "updateFenceState l state = state" by (simp add: update_inert)
  with Cons show ?case by (simp add: Let_def)
qed

lemma summary_collects_closing_fence:
  assumes "fenceMarkerOf opening \<noteq> []"
    "\<forall>l \<in> set body. fenceMarkerOf l \<noteq> fenceMarkerOf opening"
    "fenceMarkerOf closing = fenceMarkerOf opening"
  shows "summaryLoop noFence [] (opening # body @ closing # rest) = summaryLoop noFence [trim closing] rest"
proof -
  let ?st = "\<lparr>inFence = True, fenceMarker = fenceMarkerOf opening\<rparr>"
  have o: "opensFence noFence opening" using assms(1) by (simp add: opensFence_def noFence_def)
  have c: "closesFence ?st closing" using assms(1,3) by (simp add: closesFence_def)
  have "summaryLoop noFence [] (opening # body @ closing # rest) = summaryLoop ?st [] (body @ closing # rest)"
    using opening_line_fenced(5) [OF o] update_opens [OF o] by simp
  also have "\<dots> = summaryLoop ?st [] (closing # rest)"
    using assms(2) by (intro summaryLoop_fenced_body) auto
  also have "\<dots> = summaryLoop noFence [trim closing] rest"
    using closing_line_classified(5) [OF c, of "[]" rest] by simp
  finally show ?thesis .
qed

text \<open>
  C10. Every fence-aware scanner updates the fence state before it classifies the line.
  The line that opens a fence is already fenced: the rewriter and the link normalizer
  pass it through untouched, title and summary extraction skip it. The line that closes a
  fence is not fenced: the rewriter and the link normalizer transform it, title extraction
  tests it (it never is a title), and summary extraction collects its trimmed form into
  the paragraph; so a closing fence line before any paragraph starts the summary
  paragraph.
\<close>

theorem fence_state_updated_before_classification:
  "(opensFence state line \<longrightarrow>
      inFence (updateFenceState line state)
      \<and> stripLoop state (line # rest) = line # stripLoop (updateFenceState line state) rest
      \<and> linksLoop cur base state (line # rest) =
          line # linksLoop cur base (updateFenceState line state) rest
      \<and> titleLoop state (line # rest) fb = titleLoop (updateFenceState line state) rest fb
      \<and> summaryLoop state para (line # rest) = summaryLoop (updateFenceState line state) para rest)
   \<and> (closesFence state line \<longrightarrow>
      \<not> inFence (updateFenceState line state)
      \<and> stripLoop state (line # rest) =
          replaceComponentTags (stripHtmlComments line) # stripLoop noFence rest
      \<and> linksLoop cur base state (line # rest) =
          normalizeReferenceDefinition (replaceAll (matchInlineLink cur base) line) cur base
            # linksLoop cur base noFence rest
      \<and> titleLoop state (line # rest) fb = titleLoop noFence rest fb
      \<and> summaryLoop state para (line # rest) = summaryLoop noFence (para @ [trim line]) rest)
   \<and> (fenceMarkerOf opening \<noteq> []
        \<and> (\<forall>l \<in> set body. fenceMarkerOf l \<noteq> fenceMarkerOf opening)
        \<and> fenceMarkerOf closing = fenceMarkerOf opening \<longrightarrow>
      summaryLoop noFence [] (opening # body @ closing # rest) =
        summaryLoop noFence [trim closing] rest)"
proof (intro conjI impI)
  assume o: "opensFence state line"
  show "inFence (updateFenceState line state)" using o by (rule opening_line_fenced)
  show "stripLoop state (line # rest) = line # stripLoop (updateFenceState line state) rest"
    using o by (rule opening_line_fenced)
  show "linksLoop cur base state (line # rest) =
          line # linksLoop cur base (updateFenceState line state) rest"
    using o by (rule opening_line_fenced)
  show "titleLoop state (line # rest) fb = titleLoop (updateFenceState line state) rest fb"
    using o by (rule opening_line_fenced)
  show "summaryLoop state para (line # rest) = summaryLoop (updateFenceState line state) para rest"
    using o by (rule opening_line_fenced)
next
  assume c: "closesFence state line"
  show "\<not> inFence (updateFenceState line state)" using c by (rule closing_line_classified)
  show "stripLoop state (line # rest) =
          replaceComponentTags (stripHtmlComments line) # stripLoop noFence rest"
    using c by (rule closing_line_classified)
  show "linksLoop cur base state (line # rest) =
          normalizeReferenceDefinition (replaceAll (matchInlineLink cur base) line) cur base
            # linksLoop cur base noFence rest"
    using c by (rule closing_line_classified)
  show "titleLoop state (line # rest) fb = titleLoop noFence rest fb"
    using c by (rule closing_line_classified)
  show "summaryLoop state para (line # rest) = summaryLoop noFence (para @ [trim line]) rest"
    using c by (rule closing_line_classified)
next
  assume "fenceMarkerOf opening \<noteq> []
        \<and> (\<forall>l \<in> set body. fenceMarkerOf l \<noteq> fenceMarkerOf opening)
        \<and> fenceMarkerOf closing = fenceMarkerOf opening"
  then show "summaryLoop noFence [] (opening # body @ closing # rest) =
        summaryLoop noFence [trim closing] rest"
    by (intro summary_collects_closing_fence) auto
qed

lemma fence_examples:
  "opensFence noFence ''```js''"
  "closesFence \<lparr>inFence = True, fenceMarker = ''```''\<rparr> ''```''"
  "fenceMarkerOf ''```js'' \<noteq> []"
  "fenceMarkerOf ''# not a heading'' \<noteq> fenceMarkerOf ''```js''"
  "fenceMarkerOf ''```'' = fenceMarkerOf ''```js''"
  "extractSummary (joinLines [''```js'', ''# not a heading'', ''```'', ''Hello'']) = [CHR 0x60] @ '' Hello''"
  "stripVuePressDirectives (joinLines [''``` <Foo>'', ''<Foo>'', ''``` <Foo>'', ''<Foo>'']) =
     joinLines [''``` <Foo>'', ''<Foo>'', ''``` '', []]"
  by code_simp+

theorem fence_state_updated_before_classification_witness:
  "opensFence noFence ''```js''
   \<and> closesFence \<lparr>inFence = True, fenceMarker = ''```''\<rparr> ''```''
   \<and> fenceMarkerOf ''```js'' \<noteq> []
   \<and> fenceMarkerOf ''# not a heading'' \<noteq> fenceMarkerOf ''```js''
   \<and> fenceMarkerOf ''```'' = fenceMarkerOf ''```js''
   \<and> inFence (updateFenceState ''```js'' noFence)
   \<and> \<not> inFence (updateFenceState ''```'' \<lparr>inFence = True, fenceMarker = ''```''\<rparr>)
   \<and> summaryLoop \<lparr>inFence = True, fenceMarker = ''```''\<rparr> [] [''```'', ''Hello''] =
       summaryLoop noFence [''```''] [''Hello'']
   \<and> summaryLoop noFence [] [''```js'', ''# not a heading'', ''```'', ''Hello''] =
       summaryLoop noFence [trim ''```''] [''Hello'']
   \<and> extractSummary (joinLines [''```js'', ''# not a heading'', ''```'', ''Hello'']) = [CHR 0x60] @ '' Hello''"
  using fence_state_updated_before_classification
      [of noFence "''```js''" "[]" "[]" "[]" "[]" "[]" "''```js''" "[''# not a heading'']" "''```''"]
    fence_state_updated_before_classification
      [of "\<lparr>inFence = True, fenceMarker = ''```''\<rparr>" "''```''" "[''Hello'']" "[]" "[]" "[]" "[]"
          "''```js''" "[''# not a heading'']" "''```''"]
    fence_examples
  by (simp add: trim_def trimStart_def trimEnd_def isSpace_def)

section \<open>Summary extraction: the cleaning steps\<close>


lemma breakAt_none: "d \<notin> set a \<Longrightarrow> breakAt d a = None"
  by (induction a) auto




lemma replaceAll_no_match:
  assumes "\<And>p c s. c \<in> set t \<Longrightarrow> m p (c # s) = None"
  shows "replaceScan m 0 p t = t"
  using assms
proof (induction t arbitrary: p)
  case Nil
  show ?case by simp
next
  case (Cons c t)
  have "m p (c # t) = None" using Cons.prems [of c p t] by simp
  moreover have "replaceScan m 0 (Some c) t = t"
    using Cons.prems by (intro Cons.IH) auto
  ultimately show ?case by simp
qed





lemma plain_text_untouched:
  assumes "CHR ''!'' \<notin> set t" "CHR ''['' \<notin> set t" "CHR ''<'' \<notin> set t" "CHR 0x60 \<notin> set t"
  shows "replaceAll matchImage t = t" "replaceAll matchLinkText t = t"
    "replaceAll matchHtmlTag t = t" "replaceAll matchInlineCode t = t"
proof -
  show "replaceAll matchImage t = t"
    unfolding replaceAll_def using assms(1)
    by (intro replaceAll_no_match) (auto simp: matchImage_def)
  show "replaceAll matchLinkText t = t"
    unfolding replaceAll_def using assms(2)
    by (intro replaceAll_no_match) (auto simp: matchLinkText_def)
  show "replaceAll matchHtmlTag t = t"
    unfolding replaceAll_def using assms(3)
    by (intro replaceAll_no_match) (auto simp: matchHtmlTag_def)
  show "replaceAll matchInlineCode t = t"
    unfolding replaceAll_def using assms(4)
    by (intro replaceAll_no_match) (auto simp: matchInlineCode_def)
qed












section \<open>The build pipeline and inclusion directives\<close>

lemma trim_id:
  assumes "s \<noteq> []" "\<not> isSpace (hd s)" "\<not> isSpace (last s)"
  shows "trim s = s"
proof -
  have 1: "dropWhile isSpace s = s" using assms(1,2) by (cases s) auto
  have "rev s \<noteq> []" "\<not> isSpace (hd (rev s))" using assms(1,3) by (simp_all add: hd_rev)
  then have 2: "dropWhile isSpace (rev s) = rev s" by (cases "rev s") auto
  show ?thesis by (simp add: trim_def trimStart_def trimEnd_def 1 2)
qed

lemma trim_include_line: "trim (''!!!include('' @ p @ '')!!!'') = ''!!!include('' @ p @ '')!!!''"
  by (rule trim_id) (simp_all add: isSpace_def)

lemma directive_line_dropped:
  assumes "\<not> inFence state" "startsWith ''!!!'' (trim line)"
  shows "stripLoop state (line # rest) = stripLoop state rest"
proof -
  have "fenceMarkerOf line = []"
    using assms(2) by (auto simp: fenceMarkerOf_def Let_def startsWith_def prefix_def)
  then have "updateFenceState line state = state" by (simp add: updateFenceState_def Let_def)
  then show ?thesis using assms by (simp add: Let_def)
qed

lemma directive_only_content:
  assumes "splitLines l = [l]" "trim l = l" "startsWith ''!!!'' l"
  shows "stripVuePressDirectives (stripFrontmatter l) = []"
proof -
  have "l \<noteq> ''---''" using assms(3) by (auto simp: startsWith_def)
  then have fm: "stripFrontmatter l = l" by (simp add: stripFrontmatter_def assms(1,2))
  have "stripLoop noFence [l] = stripLoop noFence []"
    using assms(2,3) by (intro directive_line_dropped) (simp_all add: noFence_def)
  then show ?thesis by (simp add: stripVuePressDirectives_def fm assms(1) joinLines_def)
qed

lemma include_line_stripped:
  assumes "CHR 0x0A \<notin> set p"
  shows "stripVuePressDirectives (stripFrontmatter (''!!!include('' @ p @ '')!!!'')) = []"
proof (rule directive_only_content)
  show "splitLines (''!!!include('' @ p @ '')!!!'') = [''!!!include('' @ p @ '')!!!'']"
    unfolding splitLines_def using assms by (intro splitOn_no_sep) auto
  show "trim (''!!!include('' @ p @ '')!!!'') = ''!!!include('' @ p @ '')!!!''"
    by (rule trim_include_line)
  show "startsWith ''!!!'' (''!!!include('' @ p @ '')!!!'')"
    by (simp add: startsWith_def)
qed

lemma empty_content_results:
  "extractTitle [] fb = fb" "normalizeLinks [] base cur = []" "extractSummary [] = []"
    "trimEnd [] = []"
  by (simp_all add: extractTitle_def normalizeLinks_def extractSummary_def splitLines_def
      updateFenceState_def fenceMarkerOf_def trim_def trimStart_def trimEnd_def startsWith_def
      noFence_def Let_def matchTitle_def replaceAll_def normalizeReferenceDefinition_def
      joinLines_def cleanSummaryText_def stripBlockquote_def collapseSpaces_def)

lemma processFile_empty_cleaned:
  assumes "stripVuePressDirectives (stripFrontmatter r) = []"
  shows "pageChunk (processFile base (f\<lparr>raw := r\<rparr>)) = [''---'', ''# '' @ fallbackTitle f, [], []]"
    "entrySummary (pageEntry (processFile base (f\<lparr>raw := r\<rparr>))) = []"
  by (simp_all add: processFile_def Let_def assms empty_content_results)

text \<open>
  C1, as the code has it. For each file \<open>build\<close> strips the frontmatter, rewrites
  directives and components, and from that text takes the title, the normalized content
  and the summary. It does not call the include expander: outside a fence the rewriter
  drops a line whose trimmed form starts with \<open>!!!\<close>, so a file that is one inclusion
  directive gives a page with empty content, the fallback title and an empty summary,
  whatever the directive names.
\<close>

theorem build_pipeline_order:
  "(let cleaned = stripVuePressDirectives (stripFrontmatter (raw f))
    in pageChunk (processFile base f) =
         [''---'', ''# '' @ extractTitle cleaned (fallbackTitle f),
          trimEnd (normalizeLinks cleaned base (relPath f)), []]
       \<and> entrySummary (pageEntry (processFile base f)) = extractSummary cleaned)
   \<and> (\<not> inFence state \<and> startsWith ''!!!'' (trim line) \<longrightarrow>
        stripLoop state (line # rest) = stripLoop state rest)
   \<and> (CHR 0x0A \<notin> set p \<longrightarrow>
        pageChunk (processFile base (f\<lparr>raw := ''!!!include('' @ p @ '')!!!''\<rparr>)) =
          [''---'', ''# '' @ fallbackTitle f, [], []]
        \<and> entrySummary (pageEntry (processFile base (f\<lparr>raw := ''!!!include('' @ p @ '')!!!''\<rparr>))) = [])"
proof (intro conjI impI)
  show "let cleaned = stripVuePressDirectives (stripFrontmatter (raw f))
    in pageChunk (processFile base f) =
         [''---'', ''# '' @ extractTitle cleaned (fallbackTitle f),
          trimEnd (normalizeLinks cleaned base (relPath f)), []]
       \<and> entrySummary (pageEntry (processFile base f)) = extractSummary cleaned"
    by (simp add: processFile_def Let_def)
next
  assume "\<not> inFence state \<and> startsWith ''!!!'' (trim line)"
  then have "\<not> inFence state" "startsWith ''!!!'' (trim line)" by blast+
  then show "stripLoop state (line # rest) = stripLoop state rest"
    by (rule directive_line_dropped)
next
  assume p: "CHR 0x0A \<notin> set p"
  show "pageChunk (processFile base (f\<lparr>raw := ''!!!include('' @ p @ '')!!!''\<rparr>)) =
          [''---'', ''# '' @ fallbackTitle f, [], []]"
    using include_line_stripped [OF p] by (rule processFile_empty_cleaned)
  show "entrySummary (pageEntry (processFile base (f\<lparr>raw := ''!!!include('' @ p @ '')!!!''\<rparr>))) = []"
    using include_line_stripped [OF p] by (rule processFile_empty_cleaned)
qed

lemma include_examples:
  "\<not> inFence noFence" "startsWith ''!!!'' (trim ''  !!! note'')" "CHR 0x0A \<notin> set ''b.md''"
  "stripLoop noFence [''  !!! note'', ''text''] = [''text'']"
  by code_simp+

theorem build_pipeline_order_witness:
  "\<not> inFence noFence \<and> startsWith ''!!!'' (trim ''  !!! note'') \<and> CHR 0x0A \<notin> set ''b.md''
   \<and> stripLoop noFence [''  !!! note'', ''text''] = stripLoop noFence [''text'']
   \<and> pageChunk (processFile ''https://x/'' (includeFile\<lparr>raw := ''!!!include(b.md)!!!''\<rparr>)) =
        [''---'', ''# '' @ fallbackTitle includeFile, [], []]
   \<and> entrySummary (pageEntry (processFile ''https://x/'' (includeFile\<lparr>raw := ''!!!include(b.md)!!!''\<rparr>))) = []"
  using build_pipeline_order [of includeFile "''https://x/''" noFence "''  !!! note''" "[''text'']" "''b.md''"]
    include_examples
  by simp

lemma include_pipeline_values:
  "snd (expandIncludeDirectives includeFs ''/'' (raw includeFile) ''/r'' ''/r/a.md'' None) =
     Inr ''Included text''"
  "map_sum id pageChunk
     (specProcessFile includeFs ''/'' ''/r'' ''/r/a.md'' ''https://x/'' includeFile) =
     Inr [''---'', ''# a'', ''Included text'', []]"
  "pageChunk (processFile ''https://x/'' includeFile) = [''---'', ''# a'', [], []]"
  by code_simp+

text \<open>
  C1 as stated fails at this file: the expander turns its text into \<open>Included text\<close>, and
  the pipeline with the expander first would give a page with that content, while the
  page that \<open>build\<close> makes has empty content.
\<close>

theorem build_does_not_expand_includes:
  "snd (expandIncludeDirectives includeFs ''/'' (raw includeFile) ''/r'' ''/r/a.md'' None) =
     Inr ''Included text''
   \<and> pageChunk (processFile ''https://x/'' includeFile) = [''---'', ''# a'', [], []]
   \<and> specProcessFile includeFs ''/'' ''/r'' ''/r/a.md'' ''https://x/'' includeFile
       \<noteq> Inr (processFile ''https://x/'' includeFile)"
proof (intro conjI)
  show "snd (expandIncludeDirectives includeFs ''/'' (raw includeFile) ''/r'' ''/r/a.md'' None) =
     Inr ''Included text''"
    by (rule include_pipeline_values)
  show "pageChunk (processFile ''https://x/'' includeFile) = [''---'', ''# a'', [], []]"
    by (rule include_pipeline_values)
  show "specProcessFile includeFs ''/'' ''/r'' ''/r/a.md'' ''https://x/'' includeFile
       \<noteq> Inr (processFile ''https://x/'' includeFile)"
  proof
    assume "specProcessFile includeFs ''/'' ''/r'' ''/r/a.md'' ''https://x/'' includeFile
       = Inr (processFile ''https://x/'' includeFile)"
    then have "map_sum id pageChunk
        (specProcessFile includeFs ''/'' ''/r'' ''/r/a.md'' ''https://x/'' includeFile) =
        Inr (pageChunk (processFile ''https://x/'' includeFile))"
      by simp
    then show False unfolding include_pipeline_values by simp
  qed
qed

section \<open>Include expander: path escape\<close>

declare expand.simps [simp del]

lemma resolveIncludePath_eq:
  "resolveIncludePath cwd inc root fp =
     (if underRoot cwd root (includeTarget cwd inc root fp)
      then Inr (includeTarget cwd inc root fp) else Inl (PathEscape inc))"
  by (simp add: resolveIncludePath_def includeTarget_def underRoot_def Let_def)

lemma resolveIncludePath_under:
  "resolveIncludePath cwd inc root fp = Inr p \<Longrightarrow> underRoot cwd root p"
  by (simp add: resolveIncludePath_eq split: if_splits)

lemma readCached_reads:
  "readCached E p st = (st', r) \<Longrightarrow> set (reads st') \<subseteq> insert p (set (reads st))"
  by (auto simp: readCached_def split: option.splits)

lemma escape_step:
  assumes "\<not> underRoot (workingDir E) (repoRoot E) (includeTarget (workingDir E) (trim g) (repoRoot E) fp)"
  shows "expandEach E ((before, g) # ms) fp depth stack st = (st, Inl (PathEscape (trim g)))"
  using assms by (simp add: resolveIncludePath_eq)

lemma expand_state_invariant:
  assumes step: "\<And>p st st' r. underRoot (workingDir E) (repoRoot E) p \<Longrightarrow> Q st \<Longrightarrow>
      readCached E p st = (st', r) \<Longrightarrow> Q st'"
  shows "Q st \<Longrightarrow> Q (fst (expand E input fp depth stack st))"
    and "Q st \<Longrightarrow> Q (fst (expandEach E ms fp depth stack st))"
  using step
proof (induction E input fp depth stack st and E ms fp depth stack st rule: expand_expandEach.induct)
  case (1 E input filePath depth stack st)
  show ?case
  proof (cases "depth > maxDepth E")
    case True
    then have "expand E input filePath depth stack st = (st, Inl (DepthExceeded (maxDepth E) filePath))"
      by (simp add: expand.simps)
    then show ?thesis using "1.prems"(1) by simp
  next
    case False
    obtain ms rest where im: "includeMatches input = (ms, rest)" by (cases "includeMatches input")
    show ?thesis
    proof (cases ms)
      case Nil
      then have "expand E input filePath depth stack st = (st, Inr input)"
        using False im by (simp add: expand.simps)
      then show ?thesis using "1.prems"(1) by simp
    next
      case (Cons m ms')
      have ih: "Q (fst (expandEach E (m # ms') filePath depth stack st))"
        using "1.IH" [OF False im [symmetric, unfolded Cons] refl "1.prems"(1)] "1.prems"(2) by blast
      obtain s res where e: "expandEach E (m # ms') filePath depth stack st = (s, res)"
        by (cases "expandEach E (m # ms') filePath depth stack st")
      have "fst (expand E input filePath depth stack st) = s"
        using False im Cons e by (cases res) (simp_all add: expand.simps)
      then show ?thesis using ih e by simp
    qed
  qed
next
  case (2 E filePath depth stack st)
  then show ?case by simp
next
  case (3 E before g ms filePath depth stack st)
  let ?lhs = "expandEach E ((before, g) # ms) filePath depth stack st"
  show ?case
  proof (cases "resolveIncludePath (workingDir E) (trim g) (repoRoot E) filePath")
    case (Inl e)
    then have "?lhs = (st, Inl e)" by simp
    then show ?thesis using "3.prems"(1) by simp
  next
    case rp: (Inr p)
    note u = resolveIncludePath_under [OF rp]
    show ?thesis
    proof (cases "p \<in> stack")
      case True
      then have "?lhs = (st, Inl (IncludeCycle p))" using rp by simp
      then show ?thesis using "3.prems"(1) by simp
    next
      case False
      obtain st1 r where rc: "readCached E p st = (st1, r)" by (cases "readCached E p st")
      have q1: "Q st1" using "3.prems"(2) [OF u "3.prems"(1) rc] .
      show ?thesis
      proof (cases r)
        case None
        then have "?lhs = (st1, Inl (ReadFailed p))" using rp False rc by simp
        then show ?thesis using q1 by simp
      next
        case (Some included)
        obtain st2 res where ex: "expand E included p (depth + 1) (insert p stack) st1 = (st2, res)"
          by (cases "expand E included p (depth + 1) (insert p stack) st1")
        have "Q (fst (expand E included p (depth + 1) (insert p stack) st1))"
          using "3.IH"(1) [OF rp False rc [symmetric] Some q1] "3.prems"(2) by blast
        then have q2: "Q st2" using ex by simp
        show ?thesis
        proof (cases res)
          case (Inl e)
          then have "?lhs = (st2, Inl e)" using rp False rc Some ex by simp
          then show ?thesis using q2 by simp
        next
          case (Inr expanded)
          obtain st3 res3 where e3: "expandEach E ms filePath depth stack st2 = (st3, res3)"
            by (cases "expandEach E ms filePath depth stack st2")
          have "Q (fst (expandEach E ms filePath depth stack st2))"
            using "3.IH"(2) [OF rp False rc [symmetric] Some ex [symmetric] Inr q2] "3.prems"(2)
            by blast
          then have q3: "Q st3" using e3 by simp
          have "fst ?lhs = st3" using rp False rc Some ex Inr e3 by (cases res3) simp_all
          then show ?thesis using q3 by simp
        qed
      qed
    qed
  qed
qed

lemma reads_under_root:
  assumes "\<forall>p \<in> set (reads st). underRoot (workingDir E) (repoRoot E) p"
  shows "\<forall>p \<in> set (reads (fst (expand E input fp depth stack st))).
        underRoot (workingDir E) (repoRoot E) p"
proof (rule expand_state_invariant(1)
    [where Q = "\<lambda>s. \<forall>p \<in> set (reads s). underRoot (workingDir E) (repoRoot E) p"])
  fix p s s' r
  assume "underRoot (workingDir E) (repoRoot E) p"
    "\<forall>p \<in> set (reads s). underRoot (workingDir E) (repoRoot E) p"
    "readCached E p s = (s', r)"
  then show "\<forall>p \<in> set (reads s'). underRoot (workingDir E) (repoRoot E) p"
    using readCached_reads [of E p s s' r] by blast
next
  show "\<forall>p \<in> set (reads st). underRoot (workingDir E) (repoRoot E) p" by (rule assms)
qed


lemma escape_top_level:
  assumes "includeMatches content = ((before, g) # ms, rest)" "0 \<le> maxD"
    "\<not> underRoot cwd (posix_resolve cwd [optRoot])
        (includeTarget cwd (trim g) (posix_resolve cwd [optRoot]) cur)"
  shows "expandIncludeDirectives fs cwd content optRoot cur (Some maxD) =
     (\<lparr>cache = Map.empty, reads = []\<rparr>, Inl (PathEscape (trim g)))"
  using assms by (simp add: expandIncludeDirectives_def expand.simps resolveIncludePath_eq)

text \<open>
  C4. Path resolution fails with a path-escape error exactly when the resolved,
  normalized path is neither the root nor under it. The loop over the directives then
  fails with that error and leaves the cache and the list of reads as they are: nothing
  is read for the directive. Every path that an expansion hands to \<open>fs.readFile\<close> is the
  root or under it, so the content of a file outside the root is never read.
\<close>

theorem path_escape_not_read:
  "resolveIncludePath cwd inc root fp =
     (if underRoot cwd root (includeTarget cwd inc root fp)
      then Inr (includeTarget cwd inc root fp) else Inl (PathEscape inc))
   \<and> (\<not> underRoot (workingDir E) (repoRoot E)
          (includeTarget (workingDir E) (trim g) (repoRoot E) fp) \<longrightarrow>
        expandEach E ((before, g) # ms) fp depth stack st = (st, Inl (PathEscape (trim g))))
   \<and> (includeMatches content = ((before, g) # ms, rest) \<and> 0 \<le> maxD
        \<and> \<not> underRoot cwd (posix_resolve cwd [optRoot])
             (includeTarget cwd (trim g) (posix_resolve cwd [optRoot]) cur) \<longrightarrow>
        expandIncludeDirectives fs cwd content optRoot cur (Some maxD) =
          (\<lparr>cache = Map.empty, reads = []\<rparr>, Inl (PathEscape (trim g))))
   \<and> ((\<forall>p \<in> set (reads st). underRoot (workingDir E) (repoRoot E) p) \<longrightarrow>
        (\<forall>p \<in> set (reads (fst (expand E input fp depth stack st))).
           underRoot (workingDir E) (repoRoot E) p))
   \<and> (\<forall>p \<in> set (reads (fst (expandIncludeDirectives fs cwd content optRoot cur optMax))).
         underRoot cwd (posix_resolve cwd [optRoot]) p)"
proof (intro conjI impI)
  show "resolveIncludePath cwd inc root fp =
     (if underRoot cwd root (includeTarget cwd inc root fp)
      then Inr (includeTarget cwd inc root fp) else Inl (PathEscape inc))"
    by (rule resolveIncludePath_eq)
next
  assume "\<not> underRoot (workingDir E) (repoRoot E)
          (includeTarget (workingDir E) (trim g) (repoRoot E) fp)"
  then show "expandEach E ((before, g) # ms) fp depth stack st = (st, Inl (PathEscape (trim g)))"
    by (rule escape_step)
next
  assume "includeMatches content = ((before, g) # ms, rest) \<and> 0 \<le> maxD
        \<and> \<not> underRoot cwd (posix_resolve cwd [optRoot])
             (includeTarget cwd (trim g) (posix_resolve cwd [optRoot]) cur)"
  then show "expandIncludeDirectives fs cwd content optRoot cur (Some maxD) =
          (\<lparr>cache = Map.empty, reads = []\<rparr>, Inl (PathEscape (trim g)))"
    by (intro escape_top_level) blast+
next
  assume "\<forall>p \<in> set (reads st). underRoot (workingDir E) (repoRoot E) p"
  then show "\<forall>p \<in> set (reads (fst (expand E input fp depth stack st))).
           underRoot (workingDir E) (repoRoot E) p"
    by (rule reads_under_root)
next
  let ?E = "\<lparr>fileSystem = fs, workingDir = cwd, repoRoot = posix_resolve cwd [optRoot],
        maxDepth = (case optMax of None \<Rightarrow> 5 | Some d \<Rightarrow> d)\<rparr>"
  have "\<forall>p \<in> set (reads (fst (expand ?E content cur 0 {} \<lparr>cache = Map.empty, reads = []\<rparr>))).
           underRoot (workingDir ?E) (repoRoot ?E) p"
    by (rule reads_under_root) simp
  then show "\<forall>p \<in> set (reads (fst (expandIncludeDirectives fs cwd content optRoot cur optMax))).
         underRoot cwd (posix_resolve cwd [optRoot]) p"
    by (simp add: expandIncludeDirectives_def)
qed

lemma escape_examples:
  "\<not> underRoot ''/'' ''/r'' (includeTarget ''/'' (trim '' ../secret.txt '') ''/r'' ''/r/a.md'')"
  "includeMatches ''!!!include( ../secret.txt )!!!'' = ([([], '' ../secret.txt '')], [])"
  "posix_resolve ''/'' [''/r''] = ''/r''"
  "trim '' ../secret.txt '' = ''../secret.txt''"
  "snd (expandIncludeDirectives escapeFs ''/'' escapeContent ''/r'' ''/r/a.md'' None) =
     Inl (PathEscape ''../secret.txt'')"
  "reads (fst (expandIncludeDirectives escapeFs ''/'' escapeContent ''/r'' ''/r/a.md'' None)) =
     [''/r/b.md'']"
  "underRoot ''/'' ''/r'' ''/r/b.md''"
  by code_simp+

theorem path_escape_not_read_witness:
  "\<not> underRoot ''/'' ''/r'' (includeTarget ''/'' (trim '' ../secret.txt '') ''/r'' ''/r/a.md'')
   \<and> includeMatches ''!!!include( ../secret.txt )!!!'' = ([([], '' ../secret.txt '')], [])
   \<and> expandIncludeDirectives escapeFs ''/'' ''!!!include( ../secret.txt )!!!'' ''/r'' ''/r/a.md'' (Some 5) =
       (\<lparr>cache = Map.empty, reads = []\<rparr>, Inl (PathEscape ''../secret.txt''))
   \<and> snd (expandIncludeDirectives escapeFs ''/'' escapeContent ''/r'' ''/r/a.md'' None) =
       Inl (PathEscape ''../secret.txt'')
   \<and> reads (fst (expandIncludeDirectives escapeFs ''/'' escapeContent ''/r'' ''/r/a.md'' None)) =
       [''/r/b.md'']
   \<and> underRoot ''/'' ''/r'' ''/r/b.md''"
  using path_escape_not_read [where cwd = "''/''" and optRoot = "''/r''" and cur = "''/r/a.md''"
      and g = "'' ../secret.txt ''" and before = "[]" and ms = "[]" and rest = "[]"
      and content = "''!!!include( ../secret.txt )!!!''" and maxD = 5 and fs = escapeFs]
    escape_examples
  by simp

section \<open>Include expander: expansion and complete inlining\<close>

lemma coherent_iff:
  "coherent E st \<longleftrightarrow> (\<forall>a c. cache st a = Some c \<longrightarrow> fileSystem E a = Some c)"
  unfolding coherent_def map_le_def by (auto simp: dom_def)

lemma readCached_coherent:
  assumes "coherent E st" "fileSystem E p = Some c"
  shows "\<exists>st1. readCached E p st = (st1, Some c) \<and> coherent E st1"
proof (cases "cache st p")
  case None
  then have "readCached E p st = (st\<lparr>cache := (cache st)(p \<mapsto> c), reads := reads st @ [p]\<rparr>, Some c)"
    using assms(2) by (simp add: readCached_def)
  moreover have "coherent E (st\<lparr>cache := (cache st)(p \<mapsto> c), reads := reads st @ [p]\<rparr>)"
    using assms by (simp add: coherent_iff)
  ultimately show ?thesis by blast
next
  case (Some c')
  then have "c' = c" using assms by (simp add: coherent_iff)
  then have "readCached E p st = (st, Some c)" using Some by (simp add: readCached_def)
  then show ?thesis using assms(1) by blast
qed

lemma readCached_preserves_coherent:
  assumes "coherent E st" "readCached E p st = (st', r)"
  shows "coherent E st'" "r = fileSystem E p"
proof -
  show "coherent E st'"
  proof (cases "cache st p")
    case None
    then show ?thesis
      using assms by (cases "fileSystem E p") (auto simp: readCached_def coherent_iff split: if_splits)
  next
    case (Some c)
    then show ?thesis using assms by (simp add: readCached_def)
  qed
  show "r = fileSystem E p"
  proof (cases "cache st p")
    case None
    then show ?thesis
      using assms by (cases "fileSystem E p") (auto simp: readCached_def)
  next
    case (Some c)
    then have "fileSystem E p = Some c" using assms(1) by (simp add: coherent_iff)
    then show ?thesis using Some assms(2) by (simp add: readCached_def)
  qed
qed

lemma expandIncludeDirectives_expand:
  "expandIncludeDirectives fs cwd content optRoot cur optMax =
     expand (expandEnvOf fs cwd optRoot optMax) content cur 0 {} freshState"
  by (simp add: expandIncludeDirectives_def expandEnvOf_def freshState_def)

lemma coherent_fresh: "coherent E freshState"
  by (simp add: coherent_def freshState_def)

lemma expand_too_deep:
  "maxDepth E < d \<Longrightarrow> expand E l lp d stack st = (st, Inl (DepthExceeded (maxDepth E) lp))"
  by (simp add: expand.simps)

lemma cycle_step:
  assumes "resolveIncludePath (workingDir E) (trim g) (repoRoot E) fp = Inr p" "p \<in> stack"
  shows "expandEach E ((before, g) # ms) fp depth stack st = (st, Inl (IncludeCycle p))"
  using assms by simp

lemma expand_coherent:
  "coherent E st \<Longrightarrow> coherent E (fst (expand E input fp depth stack st))"
  by (rule expand_state_invariant(1) [where Q = "coherent E"])
     (auto dest: readCached_preserves_coherent(1))

declare inlineWithin.simps [simp del]

lemma includeScan_nil:
  "includeScan skip acc s = ([], t) \<Longrightarrow> t = rev acc @ drop skip s"
proof (induction s arbitrary: skip acc t)
  case Nil
  then show ?case by simp
next
  case (Cons c cs)
  show ?case
  proof (cases "0 < skip")
    case True
    then have "includeScan (skip - 1) acc cs = ([], t)" using Cons.prems by simp
    from Cons.IH [OF this] True show ?thesis by (cases skip) simp_all
  next
    case False
    show ?thesis
    proof (cases "matchInclude (c # cs)")
      case None
      then have "includeScan 0 (c # acc) cs = ([], t)" using Cons.prems False by simp
      from Cons.IH [OF this] False show ?thesis by simp
    next
      case (Some gn)
      then show ?thesis using Cons.prems False by (auto split: prod.splits)
    qed
  qed
qed

lemma includeMatches_nil: "includeMatches input = ([], rest) \<Longrightarrow> rest = input"
  unfolding includeMatches_def by (drule includeScan_nil) simp

lemma expand_alt:
  "expand E input fp depth stack st =
     (if depth > maxDepth E then (st, Inl (DepthExceeded (maxDepth E) fp))
      else (case includeMatches input of
              (ms, rest) \<Rightarrow>
                (case expandEach E ms fp depth stack st of
                   (s, Inl e) \<Rightarrow> (s, Inl e)
                 | (s, Inr r) \<Rightarrow> (s, Inr (r @ rest)))))"
proof (cases "includeMatches input")
  case (Pair ms rest)
  show ?thesis
  proof (cases ms)
    case Nil
    then have "rest = input" using Pair includeMatches_nil by simp
    then show ?thesis using Pair Nil by (simp add: expand.simps)
  next
    case (Cons m ms')
    then show ?thesis using Pair by (simp add: expand.simps)
  qed
qed

lemma expand_Inr_D:
  assumes "expand E input fp depth stack st = (st', Inr r)"
  shows "depth \<le> maxDepth E \<and>
     (\<exists>r0. expandEach E (fst (includeMatches input)) fp depth stack st = (st', Inr r0)
        \<and> r = r0 @ snd (includeMatches input))"
  using assms unfolding expand_alt
  by (cases "includeMatches input") (auto split: if_splits prod.splits sum.splits)

lemma expand_Inl_D:
  assumes "expand E input fp depth stack st = (st', Inl e)"
  shows "(maxDepth E < depth \<and> e = DepthExceeded (maxDepth E) fp \<and> st' = st)
     \<or> (depth \<le> maxDepth E \<and> expandEach E (fst (includeMatches input)) fp depth stack st = (st', Inl e))"
  using assms unfolding expand_alt
  by (cases "includeMatches input") (auto split: if_splits prod.splits sum.splits)

lemma expandEach_Inr_D:
  assumes "expandEach E ((before, g) # ms) fp depth stack st = (st', Inr r)"
  shows "\<exists>p c st1 st2 r1 r2.
      resolveIncludePath (workingDir E) (trim g) (repoRoot E) fp = Inr p \<and> p \<notin> stack
    \<and> readCached E p st = (st1, Some c)
    \<and> expand E c p (depth + 1) (insert p stack) st1 = (st2, Inr r1)
    \<and> expandEach E ms fp depth stack st2 = (st', Inr r2)
    \<and> r = before @ r1 @ r2"
  using assms by (auto split: sum.splits if_splits prod.splits option.splits)

lemma expandEach_Inl_D:
  assumes "expandEach E ((before, g) # ms) fp depth stack st = (st', Inl e)"
  shows "(resolveIncludePath (workingDir E) (trim g) (repoRoot E) fp = Inl e \<and> st' = st)
    \<or> (\<exists>p. resolveIncludePath (workingDir E) (trim g) (repoRoot E) fp = Inr p
          \<and> (p \<in> stack \<and> e = IncludeCycle p \<and> st' = st
             \<or> p \<notin> stack \<and> readCached E p st = (st', None) \<and> e = ReadFailed p
             \<or> p \<notin> stack \<and> (\<exists>st1 c. readCached E p st = (st1, Some c)
                  \<and> (expand E c p (depth + 1) (insert p stack) st1 = (st', Inl e)
                     \<or> (\<exists>st2 r1. expand E c p (depth + 1) (insert p stack) st1 = (st2, Inr r1)
                           \<and> expandEach E ms fp depth stack st2 = (st', Inl e))))))"
  using assms by (auto split: sum.splits if_splits prod.splits option.splits)

lemma expandEach_step_ok:
  assumes "resolveIncludePath (workingDir E) (trim g) (repoRoot E) fp = Inr p" "p \<notin> stack"
    "readCached E p st = (st1, Some c)"
    "expand E c p (depth + 1) (insert p stack) st1 = (st2, Inr r1)"
  shows "expandEach E ((before, g) # ms) fp depth stack st =
     (case expandEach E ms fp depth stack st2 of
        (s, Inl e) \<Rightarrow> (s, Inl e)
      | (s, Inr r) \<Rightarrow> (s, Inr (before @ r1 @ r)))"
  using assms by simp

lemma expandEach_step_err:
  assumes "resolveIncludePath (workingDir E) (trim g) (repoRoot E) fp = Inr p" "p \<notin> stack"
    "readCached E p st = (st1, Some c)"
    "expand E c p (depth + 1) (insert p stack) st1 = (st2, Inl e)"
  shows "expandEach E ((before, g) # ms) fp depth stack st = (st2, Inl e)"
  using assms by simp

lemma expandEach_append:
  "expandEach E (xs @ ys) fp depth stack st =
     (case expandEach E xs fp depth stack st of
        (s, Inl e) \<Rightarrow> (s, Inl e)
      | (s, Inr r) \<Rightarrow>
          (case expandEach E ys fp depth stack s of
             (s', Inl e) \<Rightarrow> (s', Inl e)
           | (s', Inr r') \<Rightarrow> (s', Inr (r @ r'))))"
proof (induction xs arbitrary: st)
  case Nil
  show ?case by (simp split: prod.splits sum.splits)
next
  case (Cons m xs)
  obtain before g where m: "m = (before, g)" by (cases m)
  show ?case
    unfolding m append_Cons
    by (auto simp: Cons.IH split: prod.splits sum.splits option.splits)
qed

lemma inlineEach_Some_D:
  assumes "inlineEachWithin E k ((before, g) # ms) fp = Some r"
  shows "\<exists>k' p c r1 r2. k = Suc k'
      \<and> resolveIncludePath (workingDir E) (trim g) (repoRoot E) fp = Inr p
      \<and> fileSystem E p = Some c
      \<and> inlineWithin E k' c p = Some r1
      \<and> inlineEachWithin E k ms fp = Some r2
      \<and> r = before @ r1 @ r2"
  using assms by (cases k) (auto split: sum.splits option.splits)

lemma inlineWithin_Some_D:
  assumes "inlineWithin E k input fp = Some r"
  shows "\<exists>r0. inlineEachWithin E k (fst (includeMatches input)) fp = Some r0
      \<and> r = r0 @ snd (includeMatches input)"
  using assms by (cases "includeMatches input") (auto simp: inlineWithin.simps split: option.splits)

lemma inlineWithin_Some_I:
  assumes "inlineEachWithin E k (fst (includeMatches input)) fp = Some r0"
  shows "inlineWithin E k input fp = Some (r0 @ snd (includeMatches input))"
  using assms by (cases "includeMatches input") (simp add: inlineWithin.simps)

lemma inlineEach_member:
  assumes "inlineEachWithin E k ms fp = Some r" "bg \<in> set ms"
    "resolveIncludePath (workingDir E) (trim (snd bg)) (repoRoot E) fp = Inr p"
    "fileSystem E p = Some c"
  shows "\<exists>k' r'. k = Suc k' \<and> inlineWithin E k' c p = Some r'"
  using assms(1,2)
proof (induction ms arbitrary: r)
  case Nil
  then show ?case by simp
next
  case (Cons m ms)
  obtain before g where m: "m = (before, g)" by (cases m)
  from inlineEach_Some_D [OF Cons.prems(1) [unfolded m]] obtain k' p0 c0 r1 r2 where
    k: "k = Suc k'" and rp: "resolveIncludePath (workingDir E) (trim g) (repoRoot E) fp = Inr p0"
    and fs: "fileSystem E p0 = Some c0" and i1: "inlineWithin E k' c0 p0 = Some r1"
    and i2: "inlineEachWithin E k ms fp = Some r2" by blast
  show ?case
  proof (cases "bg = m")
    case True
    then have "p0 = p" using rp assms(3) by (simp add: m)
    then have "c0 = c" using fs assms(4) by simp
    then show ?thesis using k i1 \<open>p0 = p\<close> by blast
  next
    case False
    then have "bg \<in> set ms" using Cons.prems(2) by simp
    from Cons.IH [OF i2 this] show ?thesis .
  qed
qed

lemma inline_step:
  assumes "inlineWithin E k (fst n) (snd n) = Some r" "includeStep E n m"
  shows "\<exists>k' r'. k = Suc k' \<and> inlineWithin E k' (fst m) (snd m) = Some r'"
proof -
  from inlineWithin_Some_D [OF assms(1)] obtain r0 where
    e: "inlineEachWithin E k (fst (includeMatches (fst n))) (snd n) = Some r0" by blast
  from assms(2) obtain bg where "bg \<in> set (fst (includeMatches (fst n)))"
    "resolveIncludePath (workingDir E) (trim (snd bg)) (repoRoot E) (snd n) = Inr (snd m)"
    "fileSystem E (snd m) = Some (fst m)"
    by (auto simp: includeStep_def)
  from inlineEach_member [OF e this] show ?thesis .
qed

lemma inline_acyclic:
  "inlineWithin E k (fst n) (snd n) = Some r \<Longrightarrow> \<not> tranclp (includeStep E) n n"
proof (induction k arbitrary: n r)
  case 0
  show ?case
  proof
    assume "tranclp (includeStep E) n n"
    then obtain m where "includeStep E n m" by (auto dest: tranclpD)
    from inline_step [OF 0 this] show False by simp
  qed
next
  case (Suc k)
  show ?case
  proof
    assume "tranclp (includeStep E) n n"
    then obtain m where s: "includeStep E n m" and b: "rtranclp (includeStep E) m n"
      by (auto dest: tranclpD)
    from inline_step [OF Suc.prems s] obtain r' where
      i: "inlineWithin E k (fst m) (snd m) = Some r'" by auto
    from b s have "tranclp (includeStep E) m m" by (rule rtranclp_into_tranclp1)
    with Suc.IH [OF i] show False by simp
  qed
qed

lemma inlineEach_expandEach:
  assumes IH: "\<And>k' c p depth' stack' st1 r1. Suc k' = k \<Longrightarrow> inlineWithin E k' c p = Some r1 \<Longrightarrow>
        coherent E st1 \<Longrightarrow> depth' + int k' \<le> maxDepth E \<Longrightarrow> ancestors E stack' (c, p) \<Longrightarrow>
        \<exists>st'. expand E c p depth' stack' st1 = (st', Inr r1) \<and> coherent E st'"
    and ie: "inlineEachWithin E k ms fp = Some r" and co: "coherent E st"
    and d: "depth + int k \<le> maxDepth E" and an: "ancestors E stack (input, fp)"
    and sub: "set ms \<subseteq> set (fst (includeMatches input))"
  shows "\<exists>st'. expandEach E ms fp depth stack st = (st', Inr r) \<and> coherent E st'"
  using ie co sub
proof (induction ms arbitrary: st r)
  case Nil
  then show ?case by simp
next
  case (Cons m ms)
  obtain before g where m: "m = (before, g)" by (cases m)
  from inlineEach_Some_D [OF Cons.prems(1) [unfolded m]] obtain k' p c r1 r2 where
    k: "k = Suc k'" and rp: "resolveIncludePath (workingDir E) (trim g) (repoRoot E) fp = Inr p"
    and fs: "fileSystem E p = Some c" and i1: "inlineWithin E k' c p = Some r1"
    and i2: "inlineEachWithin E k ms fp = Some r2" and r: "r = before @ r1 @ r2" by blast
  have "(before, g) \<in> set (fst (includeMatches input))" using Cons.prems(3) by (simp add: m)
  then have step: "includeStep E (input, fp) (c, p)"
    using rp fs unfolding includeStep_def by (auto intro!: bexI [of _ "(before, g)"])
  have ns: "p \<notin> stack"
  proof
    assume "p \<in> stack"
    with an obtain c0 where "fileSystem E p = Some c0" "rtranclp (includeStep E) (c0, p) (input, fp)"
      unfolding ancestors_def by blast
    with fs have "rtranclp (includeStep E) (c, p) (input, fp)" by simp
    from this step have "tranclp (includeStep E) (c, p) (c, p)" by (rule rtranclp_into_tranclp1)
    with inline_acyclic [of E k' "(c, p)" r1] i1 show False by simp
  qed
  from readCached_coherent [OF Cons.prems(2) fs] obtain st1 where
    rc: "readCached E p st = (st1, Some c)" and c1: "coherent E st1" by blast
  have an1: "ancestors E (insert p stack) (c, p)"
    unfolding ancestors_def
  proof
    fix q assume q: "q \<in> insert p stack"
    show "\<exists>c'. fileSystem E q = Some c' \<and> rtranclp (includeStep E) (c', q) (c, p)"
    proof (cases "q = p")
      case True
      then show ?thesis using fs by blast
    next
      case False
      with q an obtain c' where "fileSystem E q = Some c'"
        "rtranclp (includeStep E) (c', q) (input, fp)"
        unfolding ancestors_def by blast
      then show ?thesis using step by (meson rtranclp.rtrancl_into_rtrancl)
    qed
  qed
  have d1: "depth + 1 + int k' \<le> maxDepth E" using d k by simp
  from IH [OF k [symmetric] i1 c1 d1 an1] obtain st2 where
    e1: "expand E c p (depth + 1) (insert p stack) st1 = (st2, Inr r1)" and c2: "coherent E st2"
    by blast
  have "set ms \<subseteq> set (fst (includeMatches input))" using Cons.prems(3) by simp
  from Cons.IH [OF i2 c2 this] obtain st3 where
    e2: "expandEach E ms fp depth stack st2 = (st3, Inr r2)" and c3: "coherent E st3" by blast
  have "expandEach E ((before, g) # ms) fp depth stack st = (st3, Inr (before @ r1 @ r2))"
    unfolding expandEach_step_ok [OF rp ns rc e1] e2 by simp
  then show ?case using c3 r m by simp
qed

lemma inline_expand:
  "inlineWithin E k input fp = Some r \<Longrightarrow> coherent E st \<Longrightarrow> depth + int k \<le> maxDepth E \<Longrightarrow>
     ancestors E stack (input, fp) \<Longrightarrow>
     \<exists>st'. expand E input fp depth stack st = (st', Inr r) \<and> coherent E st'"
proof (induction k arbitrary: input fp depth stack st r)
  case 0
  from inlineWithin_Some_D [OF 0(1)] obtain r0 where
    e: "inlineEachWithin E 0 (fst (includeMatches input)) fp = Some r0"
    and r: "r = r0 @ snd (includeMatches input)" by blast
  have "\<exists>st'. expandEach E (fst (includeMatches input)) fp depth stack st = (st', Inr r0)
      \<and> coherent E st'"
    using e 0(2,3,4) by (intro inlineEach_expandEach [where k = 0 and input = input]) auto
  then obtain st' where
    "expandEach E (fst (includeMatches input)) fp depth stack st = (st', Inr r0)" "coherent E st'"
    by blast
  moreover have "depth \<le> maxDepth E" using 0(3) by simp
  ultimately show ?case
    unfolding expand_alt r by (cases "includeMatches input") auto
next
  case (Suc k)
  from inlineWithin_Some_D [OF Suc.prems(1)] obtain r0 where
    e: "inlineEachWithin E (Suc k) (fst (includeMatches input)) fp = Some r0"
    and r: "r = r0 @ snd (includeMatches input)" by blast
  have "\<exists>st'. expandEach E (fst (includeMatches input)) fp depth stack st = (st', Inr r0)
      \<and> coherent E st'"
  proof (rule inlineEach_expandEach [where k = "Suc k" and input = input, OF _ e Suc.prems(2,3,4)])
    fix k' c p depth' stack' st1 r1
    assume "Suc k' = Suc k" "inlineWithin E k' c p = Some r1" "coherent E st1"
      "depth' + int k' \<le> maxDepth E" "ancestors E stack' (c, p)"
    then show "\<exists>st'. expand E c p depth' stack' st1 = (st', Inr r1) \<and> coherent E st'"
      using Suc.IH [of c p r1 st1 depth' stack'] by simp
  qed simp
  then obtain st' where
    "expandEach E (fst (includeMatches input)) fp depth stack st = (st', Inr r0)" "coherent E st'"
    by blast
  moreover have "depth \<le> maxDepth E" using Suc.prems(3) by simp
  ultimately show ?case
    unfolding expand_alt r by (cases "includeMatches input") auto
qed

lemma expandEach_inlineEach:
  assumes IH: "\<And>c p stack' st1 st2 r1. coherent E st1 \<Longrightarrow>
        expand E c p (depth + 1) stack' st1 = (st2, Inr r1) \<Longrightarrow>
        \<exists>k'. nat (maxDepth E - depth) = Suc k' \<and> inlineWithin E k' c p = Some r1"
    and ee: "expandEach E ms fp depth stack st = (st', Inr r)" and co: "coherent E st"
  shows "inlineEachWithin E (nat (maxDepth E - depth)) ms fp = Some r"
  using ee co
proof (induction ms arbitrary: st r)
  case Nil
  then show ?case by simp
next
  case (Cons m ms)
  obtain before g where m: "m = (before, g)" by (cases m)
  from expandEach_Inr_D [OF Cons.prems(1) [unfolded m]] obtain p c st1 st2 r1 r2 where
    rp: "resolveIncludePath (workingDir E) (trim g) (repoRoot E) fp = Inr p"
    and rc: "readCached E p st = (st1, Some c)"
    and e1: "expand E c p (depth + 1) (insert p stack) st1 = (st2, Inr r1)"
    and e2: "expandEach E ms fp depth stack st2 = (st', Inr r2)"
    and r: "r = before @ r1 @ r2" by blast
  note c1 = readCached_preserves_coherent [OF Cons.prems(2) rc]
  have c2: "coherent E st2"
    using expand_coherent [OF c1(1), of c p "depth + 1" "insert p stack"] e1 by simp
  from IH [OF c1(1) e1] obtain k' where
    k: "nat (maxDepth E - depth) = Suc k'" and i1: "inlineWithin E k' c p = Some r1" by blast
  from Cons.IH [OF e2 c2] have i2: "inlineEachWithin E (nat (maxDepth E - depth)) ms fp = Some r2" .
  have fs: "fileSystem E p = Some c" using c1(2) by simp
  show ?case unfolding m k using rp fs i1 i2 [unfolded k] r by simp
qed

lemma expand_inline:
  "expand E input fp depth stack st = (st', Inr r) \<Longrightarrow> coherent E st \<Longrightarrow>
     inlineWithin E (nat (maxDepth E - depth)) input fp = Some r"
proof (induction "nat (maxDepth E + 1 - depth)" arbitrary: input fp depth stack st st' r)
  case 0
  from expand_Inr_D [OF 0(2)] 0(1) show ?case by simp
next
  case (Suc j)
  from expand_Inr_D [OF Suc.prems(1)] obtain r0 where
    d: "depth \<le> maxDepth E"
    and ee: "expandEach E (fst (includeMatches input)) fp depth stack st = (st', Inr r0)"
    and r: "r = r0 @ snd (includeMatches input)" by blast
  have "inlineEachWithin E (nat (maxDepth E - depth)) (fst (includeMatches input)) fp = Some r0"
  proof (rule expandEach_inlineEach [OF _ ee Suc.prems(2)])
    fix c p stack' st1 st2 r1
    assume c1: "coherent E st1" and e1: "expand E c p (depth + 1) stack' st1 = (st2, Inr r1)"
    from expand_Inr_D [OF e1] have d1: "depth + 1 \<le> maxDepth E" by simp
    have "j = nat (maxDepth E + 1 - (depth + 1))" using Suc.hyps(2) by simp
    from Suc.hyps(1) [OF this e1 c1]
    have "inlineWithin E (nat (maxDepth E - (depth + 1))) c p = Some r1" .
    moreover have "nat (maxDepth E - depth) = Suc (nat (maxDepth E - (depth + 1)))"
      using d1 by simp
    ultimately show "\<exists>k'. nat (maxDepth E - depth) = Suc k' \<and> inlineWithin E k' c p = Some r1"
      by blast
  qed
  from inlineWithin_Some_I [OF this] show ?case unfolding r .
qed

lemma inline_chain:
  "includeChain E n ns \<Longrightarrow> inlineWithin E k (fst n) (snd n) = Some r \<Longrightarrow> length ns \<le> k"
proof (induction ns arbitrary: n k r)
  case Nil
  then show ?case by simp
next
  case (Cons m ns)
  then have s: "includeStep E n m" and w: "includeChain E m ns" by simp_all
  from inline_step [OF Cons.prems(2) s] obtain k' r' where
    k: "k = Suc k'" and i: "inlineWithin E k' (fst m) (snd m) = Some r'" by blast
  from Cons.IH [OF w i] show ?case using k by simp
qed

lemma inline_reach:
  "rtranclp (includeStep E) n m \<Longrightarrow> inlineWithin E k (fst n) (snd n) = Some r \<Longrightarrow>
     \<exists>k' r'. inlineWithin E k' (fst m) (snd m) = Some r'"
proof (induction rule: rtranclp_induct)
  case base
  then show ?case by blast
next
  case (step y z)
  then obtain k' r' where "inlineWithin E k' (fst y) (snd y) = Some r'" by blast
  from inline_step [OF this step.hyps(2)] show ?case by blast
qed

lemma inline_not_cyclic:
  assumes "inlineWithin E k (fst n) (snd n) = Some r"
  shows "\<not> cyclicFrom E n"
proof
  assume "cyclicFrom E n"
  then obtain m where r: "rtranclp (includeStep E) n m" and c: "tranclp (includeStep E) m m"
    by (auto simp: cyclicFrom_def)
  from inline_reach [OF r assms] obtain k' r' where
    "inlineWithin E k' (fst m) (snd m) = Some r'" by blast
  from inline_acyclic [OF this] c show False by simp
qed

lemma ancestors_empty: "ancestors E {} n"
  by (simp add: ancestors_def)

lemma ancestors_insert:
  assumes "ancestors E stack n" "includeStep E n (c, p)"
  shows "ancestors E (insert p stack) (c, p)"
  unfolding ancestors_def
proof
  fix q assume q: "q \<in> insert p stack"
  have fs: "fileSystem E p = Some c" using assms(2) by (simp add: includeStep_def)
  show "\<exists>c'. fileSystem E q = Some c' \<and> rtranclp (includeStep E) (c', q) (c, p)"
  proof (cases "q = p")
    case True
    then show ?thesis using fs by blast
  next
    case False
    with q assms(1) obtain c' where "fileSystem E q = Some c'"
      "rtranclp (includeStep E) (c', q) n"
      unfolding ancestors_def by blast
    then show ?thesis using assms(2) by (meson rtranclp.rtrancl_into_rtrancl)
  qed
qed

lemma includeStep_I:
  assumes "includeMatches input = (ms, rest)" "bg \<in> set ms"
    "resolveIncludePath (workingDir E) (trim (snd bg)) (repoRoot E) fp = Inr p"
    "fileSystem E p = Some c"
  shows "includeStep E (input, fp) (c, p)"
  using assms unfolding includeStep_def by (auto intro!: bexI [of _ bg])

lemma expand_at_directive:
  assumes im: "includeMatches input = (ms, rest)" and i: "i < length ms"
    and pre: "inlineEachWithin E (nat (maxDepth E - depth)) (take i ms) fp \<noteq> None"
    and d: "depth \<le> maxDepth E" and co: "coherent E st" and an: "ancestors E stack (input, fp)"
  shows "\<exists>st1. coherent E st1 \<and>
     (\<forall>s e. expandEach E (ms ! i # drop (Suc i) ms) fp depth stack st1 = (s, Inl e) \<longrightarrow>
        expand E input fp depth stack st = (s, Inl e))"
proof -
  from pre obtain r0 where
    r0: "inlineEachWithin E (nat (maxDepth E - depth)) (take i ms) fp = Some r0" by blast
  have sub: "set (take i ms) \<subseteq> set (fst (includeMatches input))"
    using im by (auto dest: in_set_takeD)
  have dd: "depth + int (nat (maxDepth E - depth)) \<le> maxDepth E" using d by simp
  have "\<exists>st'. expandEach E (take i ms) fp depth stack st = (st', Inr r0) \<and> coherent E st'"
  proof (rule inlineEach_expandEach [where input = input, OF _ r0 co dd an sub])
    fix k' c p depth' stack' st1 r1
    assume "inlineWithin E k' c p = Some r1" "coherent E st1"
      "depth' + int k' \<le> maxDepth E" "ancestors E stack' (c, p)"
    then show "\<exists>st'. expand E c p depth' stack' st1 = (st', Inr r1) \<and> coherent E st'"
      by (rule inline_expand)
  qed
  then obtain st1 where e1: "expandEach E (take i ms) fp depth stack st = (st1, Inr r0)"
    and c1: "coherent E st1" by blast
  have split: "ms = take i ms @ ms ! i # drop (Suc i) ms" using i by (simp add: id_take_nth_drop)
  have "expand E input fp depth stack st = (s, Inl e)"
    if "expandEach E (ms ! i # drop (Suc i) ms) fp depth stack st1 = (s, Inl e)" for s e
  proof -
    have "expandEach E (take i ms @ ms ! i # drop (Suc i) ms) fp depth stack st = (s, Inl e)"
      unfolding expandEach_append e1 using that by simp
    then have "expandEach E ms fp depth stack st = (s, Inl e)" using split by simp
    then show ?thesis unfolding expand_alt using d im by simp
  qed
  then show ?thesis using c1 by blast
qed

lemma branch_Cons_D:
  assumes "branch E d input fp ((i, p, c) # chain) = Some (l, lp)"
  shows "i < length (fst (includeMatches input))
    \<and> inlineEachWithin E (nat (maxDepth E - d)) (take i (fst (includeMatches input))) fp \<noteq> None
    \<and> resolveIncludePath (workingDir E) (trim (snd (fst (includeMatches input) ! i))) (repoRoot E) fp = Inr p
    \<and> fileSystem E p = Some c
    \<and> branch E (d + 1) c p chain = Some (l, lp)"
  using assms by (simp add: reachesDirective_def directiveTarget_def split: if_splits)

lemma branch_descend:
  assumes "branch E depth input fp chain = Some (l, lp)"
    "distinct (map (fst \<circ> snd) chain)" "set (map (fst \<circ> snd) chain) \<inter> stack = {}"
    "coherent E st" "ancestors E stack (input, fp)"
    "depth + int (length chain) \<le> maxDepth E + 1"
  shows "\<exists>st1. coherent E st1
     \<and> ancestors E (stack \<union> set (map (fst \<circ> snd) chain)) (l, lp)
     \<and> (\<forall>s e. expand E l lp (depth + int (length chain)) (stack \<union> set (map (fst \<circ> snd) chain)) st1
                 = (s, Inl e) \<longrightarrow>
               expand E input fp depth stack st = (s, Inl e))"
  using assms
proof (induction chain arbitrary: input fp depth stack st)
  case Nil
  then show ?case by auto
next
  case (Cons x chain)
  obtain i p c where x: "x = (i, p, c)" by (cases x)
  obtain ms rest where im: "includeMatches input = (ms, rest)" by (cases "includeMatches input")
  from branch_Cons_D [OF Cons.prems(1) [unfolded x]] have
    i: "i < length ms"
    and pre: "inlineEachWithin E (nat (maxDepth E - depth)) (take i ms) fp \<noteq> None"
    and rp: "resolveIncludePath (workingDir E) (trim (snd (ms ! i))) (repoRoot E) fp = Inr p"
    and fs: "fileSystem E p = Some c"
    and br: "branch E (depth + 1) c p chain = Some (l, lp)"
    by (simp_all add: im)
  have d: "depth \<le> maxDepth E" using Cons.prems(6) by simp
  from expand_at_directive [OF im i pre d Cons.prems(4,5)] obtain st1 where
    c1: "coherent E st1" and
    up1: "\<And>s e. expandEach E (ms ! i # drop (Suc i) ms) fp depth stack st1 = (s, Inl e) \<Longrightarrow>
        expand E input fp depth stack st = (s, Inl e)" by blast
  obtain before g where bg: "ms ! i = (before, g)" by (cases "ms ! i")
  have rp': "resolveIncludePath (workingDir E) (trim g) (repoRoot E) fp = Inr p"
    using rp by (simp add: bg)
  have mem: "ms ! i \<in> set ms" using i by simp
  have step: "includeStep E (input, fp) (c, p)" using im mem rp fs by (rule includeStep_I)
  have ns: "p \<notin> stack" using Cons.prems(3) by (auto simp: x comp_def)
  from readCached_coherent [OF c1 fs] obtain st2 where
    rc: "readCached E p st1 = (st2, Some c)" and c2: "coherent E st2" by blast
  have an1: "ancestors E (insert p stack) (c, p)" using Cons.prems(5) step by (rule ancestors_insert)
  have dist: "distinct (map (fst \<circ> snd) chain)" using Cons.prems(2) by (simp add: comp_def)
  have disj: "set (map (fst \<circ> snd) chain) \<inter> insert p stack = {}"
    using Cons.prems(2,3) by (auto simp: x comp_def)
  have dd: "depth + 1 + int (length chain) \<le> maxDepth E + 1" using Cons.prems(6) by simp
  from Cons.IH [OF br dist disj c2 an1 dd] obtain st3 where
    c3: "coherent E st3"
    and an3: "ancestors E (insert p stack \<union> set (map (fst \<circ> snd) chain)) (l, lp)"
    and up2: "\<And>s e. expand E l lp (depth + 1 + int (length chain))
                 (insert p stack \<union> set (map (fst \<circ> snd) chain)) st3 = (s, Inl e) \<Longrightarrow>
               expand E c p (depth + 1) (insert p stack) st2 = (s, Inl e)" by blast
  have args: "depth + 1 + int (length chain) = depth + int (length (x # chain))"
    "insert p stack \<union> set (map (fst \<circ> snd) chain) = stack \<union> set (map (fst \<circ> snd) (x # chain))"
    by (auto simp: x comp_def)
  have "expand E input fp depth stack st = (s, Inl e)"
    if "expand E l lp (depth + int (length (x # chain)))
          (stack \<union> set (map (fst \<circ> snd) (x # chain))) st3 = (s, Inl e)" for s e
  proof -
    have "expand E c p (depth + 1) (insert p stack) st2 = (s, Inl e)"
      using that up2 unfolding args by simp
    then have "expandEach E ((before, g) # drop (Suc i) ms) fp depth stack st1 = (s, Inl e)"
      using rp' ns rc by (rule expandEach_step_err [rotated 3])
    then show ?thesis using up1 bg by simp
  qed
  then show ?case using c3 an3 unfolding args by blast
qed

lemma branch_append:
  "branch E d input fp (xs @ ys) =
     (case branch E d input fp xs of
        None \<Rightarrow> None
      | Some (l, lp) \<Rightarrow> branch E (d + int (length xs)) l lp ys)"
proof (induction xs arbitrary: d input fp)
  case Nil
  show ?case by simp
next
  case (Cons x xs)
  obtain i p c where x: "x = (i, p, c)" by (cases x)
  have a: "d + int (length ((i, p, c) # xs)) = d + 1 + int (length xs)" by simp
  show ?case
    unfolding x append_Cons a by (simp add: Cons.IH)
qed

lemma branch_last:
  "branch E d input fp chain = Some (l, lp) \<Longrightarrow> chain \<noteq> [] \<Longrightarrow>
     lp = fst (snd (last chain)) \<and> l = snd (snd (last chain))"
proof (induction chain arbitrary: d input fp)
  case Nil
  then show ?case by simp
next
  case (Cons x chain)
  obtain i p c where x: "x = (i, p, c)" by (cases x)
  from branch_Cons_D [OF Cons.prems(1) [unfolded x]] have
    br: "branch E (d + 1) c p chain = Some (l, lp)" by simp
  show ?case
  proof (cases "chain = []")
    case True
    then show ?thesis using br by (simp add: x)
  next
    case False
    from Cons.IH [OF br False] show ?thesis using False by simp
  qed
qed

lemma branch_depth_exceeded:
  assumes br: "branch E depth input fp chain = Some (l, lp)"
    and di: "distinct (map (fst \<circ> snd) (take (Suc (nat (maxDepth E - depth))) chain))"
    and dj: "set (map (fst \<circ> snd) (take (Suc (nat (maxDepth E - depth))) chain)) \<inter> stack = {}"
    and co: "coherent E st" and an: "ancestors E stack (input, fp)"
    and d1: "depth \<le> maxDepth E" and d2: "maxDepth E < depth + int (length chain)"
  shows "snd (expand E input fp depth stack st) =
     Inl (DepthExceeded (maxDepth E) (fst (snd (chain ! nat (maxDepth E - depth)))))"
proof -
  let ?k = "nat (maxDepth E - depth)"
  let ?xs = "take (Suc ?k) chain"
  have k: "?k < length chain" using d1 d2 by linarith
  have len: "int (length ?xs) = maxDepth E + 1 - depth" using k d1 by simp
  have ne: "?xs \<noteq> []" using k by auto
  have "chain = ?xs @ drop (Suc ?k) chain" by simp
  with br obtain l' lp' where b1: "branch E depth input fp ?xs = Some (l', lp')"
    using branch_append [of E depth input fp ?xs "drop (Suc ?k) chain"]
    by (auto split: option.splits)
  have "last ?xs = chain ! ?k" using k by (simp add: take_Suc_conv_app_nth)
  with branch_last [OF b1 ne] have lp': "lp' = fst (snd (chain ! ?k))" by simp
  have dd: "depth + int (length ?xs) \<le> maxDepth E + 1" using len by simp
  from branch_descend [OF b1 di dj co an dd] obtain st1 where
    up: "\<And>s e. expand E l' lp' (depth + int (length ?xs)) (stack \<union> set (map (fst \<circ> snd) ?xs)) st1
                 = (s, Inl e) \<Longrightarrow> expand E input fp depth stack st = (s, Inl e)" by blast
  have deep: "maxDepth E < depth + int (length ?xs)" using len by simp
  from up [OF expand_too_deep [OF deep]] show ?thesis by (simp add: lp')
qed

lemma branch_cycle:
  assumes br: "branch E depth input fp chain = Some (l, lp)"
    and di: "distinct (map (fst \<circ> snd) chain)" and dj: "set (map (fst \<circ> snd) chain) \<inter> stack = {}"
    and co: "coherent E st" and an: "ancestors E stack (input, fp)"
    and d: "depth + int (length chain) \<le> maxDepth E"
    and im: "includeMatches l = (ms, rest)" and i: "i < length ms"
    and pre: "inlineEachWithin E (nat (maxDepth E - (depth + int (length chain)))) (take i ms) lp \<noteq> None"
    and rp: "resolveIncludePath (workingDir E) (trim (snd (ms ! i))) (repoRoot E) lp = Inr q"
    and q: "q \<in> stack \<union> set (map (fst \<circ> snd) chain)"
  shows "snd (expand E input fp depth stack st) = Inl (IncludeCycle q)"
proof -
  have dd: "depth + int (length chain) \<le> maxDepth E + 1" using d by simp
  from branch_descend [OF br di dj co an dd] obtain st1 where
    c1: "coherent E st1"
    and an1: "ancestors E (stack \<union> set (map (fst \<circ> snd) chain)) (l, lp)"
    and up: "\<And>s e. expand E l lp (depth + int (length chain)) (stack \<union> set (map (fst \<circ> snd) chain)) st1
                 = (s, Inl e) \<Longrightarrow> expand E input fp depth stack st = (s, Inl e)" by blast
  from expand_at_directive [OF im i pre d c1 an1] obtain st2 where
    up2: "\<And>s e. expandEach E (ms ! i # drop (Suc i) ms) lp (depth + int (length chain))
              (stack \<union> set (map (fst \<circ> snd) chain)) st2 = (s, Inl e) \<Longrightarrow>
        expand E l lp (depth + int (length chain)) (stack \<union> set (map (fst \<circ> snd) chain)) st1 = (s, Inl e)"
    by blast
  obtain before g where bg: "ms ! i = (before, g)" by (cases "ms ! i")
  have rp': "resolveIncludePath (workingDir E) (trim g) (repoRoot E) lp = Inr q"
    using rp by (simp add: bg)
  have "expandEach E (ms ! i # drop (Suc i) ms) lp (depth + int (length chain))
              (stack \<union> set (map (fst \<circ> snd) chain)) st2 = (st2, Inl (IncludeCycle q))"
    unfolding bg using rp' q by (rule cycle_step)
  from up [OF up2 [OF this]] show ?thesis by simp
qed

section \<open>Include expander: where the first error is raised\<close>

lemma resolve_error: "resolveIncludePath cwd inc root fp = Inl e \<Longrightarrow> e = PathEscape inc"
  by (simp add: resolveIncludePath_eq split: if_splits)

lemma cycle_error_each:
  assumes IH: "\<And>c p stack' st1 st2. coherent E st1 \<Longrightarrow> ancestors E stack' (c, p) \<Longrightarrow>
        expand E c p (depth + 1) stack' st1 = (st2, Inl (IncludeCycle q)) \<Longrightarrow>
        \<exists>c'. tranclp (includeStep E) (c, p) (c', q) \<and> tranclp (includeStep E) (c', q) (c', q)"
    and ee: "expandEach E ms fp depth stack st = (st', Inl (IncludeCycle q))"
    and co: "coherent E st" and an: "ancestors E stack (input, fp)"
    and sub: "set ms \<subseteq> set (fst (includeMatches input))"
  shows "\<exists>c. tranclp (includeStep E) (input, fp) (c, q) \<and> tranclp (includeStep E) (c, q) (c, q)"
  using ee co sub
proof (induction ms arbitrary: st)
  case Nil
  then show ?case by simp
next
  case (Cons x ms)
  obtain before g where x: "x = (before, g)" by (cases x)
  have mem: "(before, g) \<in> set (fst (includeMatches input))" using Cons.prems(3) by (simp add: x)
  have sub': "set ms \<subseteq> set (fst (includeMatches input))" using Cons.prems(3) by simp
  from expandEach_Inl_D [OF Cons.prems(1) [unfolded x]]
  consider (esc) "resolveIncludePath (workingDir E) (trim g) (repoRoot E) fp = Inl (IncludeCycle q)"
    | (hit) "resolveIncludePath (workingDir E) (trim g) (repoRoot E) fp = Inr q" "q \<in> stack"
    | (child) p0 st1 c where
        "resolveIncludePath (workingDir E) (trim g) (repoRoot E) fp = Inr p0"
        "readCached E p0 st = (st1, Some c)"
        "expand E c p0 (depth + 1) (insert p0 stack) st1 = (st', Inl (IncludeCycle q))"
    | (later) p0 st1 c st2 r1 where
        "resolveIncludePath (workingDir E) (trim g) (repoRoot E) fp = Inr p0"
        "readCached E p0 st = (st1, Some c)"
        "expand E c p0 (depth + 1) (insert p0 stack) st1 = (st2, Inr r1)"
        "expandEach E ms fp depth stack st2 = (st', Inl (IncludeCycle q))"
    by auto
  then show ?case
  proof cases
    case esc
    from resolve_error [OF this] show ?thesis by simp
  next
    case hit
    from an hit(2) obtain c where fs: "fileSystem E q = Some c"
      and up: "rtranclp (includeStep E) (c, q) (input, fp)"
      unfolding ancestors_def by blast
    have step: "includeStep E (input, fp) (c, q)"
      by (rule includeStep_I [OF prod.collapse [symmetric] mem]) (simp_all add: hit(1) fs)
    then have "tranclp (includeStep E) (input, fp) (c, q)" by (rule tranclp.r_into_trancl)
    moreover from up step have "tranclp (includeStep E) (c, q) (c, q)"
      by (rule rtranclp_into_tranclp1)
    ultimately show ?thesis by blast
  next
    case child
    note c1 = readCached_preserves_coherent [OF Cons.prems(2) child(2)]
    have fs: "fileSystem E p0 = Some c" using c1(2) by simp
    have step: "includeStep E (input, fp) (c, p0)"
      by (rule includeStep_I [OF prod.collapse [symmetric] mem]) (simp_all add: child(1) fs)
    have an1: "ancestors E (insert p0 stack) (c, p0)" using an step by (rule ancestors_insert)
    from IH [OF c1(1) an1 child(3)] obtain c' where
      t: "tranclp (includeStep E) (c, p0) (c', q)" and cy: "tranclp (includeStep E) (c', q) (c', q)"
      by blast
    from step t have "tranclp (includeStep E) (input, fp) (c', q)" by (rule tranclp_into_tranclp2)
    with cy show ?thesis by blast
  next
    case later
    note c1 = readCached_preserves_coherent [OF Cons.prems(2) later(2)]
    have c2: "coherent E st2"
      using expand_coherent [OF c1(1), of c p0 "depth + 1" "insert p0 stack"] later(3) by simp
    from Cons.IH [OF later(4) c2 sub'] show ?thesis .
  qed
qed

lemma cycle_error_sound:
  "expand E input fp depth stack st = (st', Inl (IncludeCycle q)) \<Longrightarrow> coherent E st \<Longrightarrow>
     ancestors E stack (input, fp) \<Longrightarrow>
     \<exists>c. tranclp (includeStep E) (input, fp) (c, q) \<and> tranclp (includeStep E) (c, q) (c, q)"
proof (induction "nat (maxDepth E + 1 - depth)" arbitrary: input fp depth stack st st')
  case 0
  then have "maxDepth E < depth" by simp
  from expand_too_deep [OF this, of input fp stack st] 0(2) show ?case by simp
next
  case (Suc j)
  then have d: "depth \<le> maxDepth E" by simp
  from expand_Inl_D [OF Suc.prems(1)] d have
    ee: "expandEach E (fst (includeMatches input)) fp depth stack st = (st', Inl (IncludeCycle q))"
    by auto
  show ?case
  proof (rule cycle_error_each [where input = input, OF _ ee Suc.prems(2,3)])
    fix c p stack' st1 st2
    assume c1: "coherent E st1" and a1: "ancestors E stack' (c, p)"
      and e1: "expand E c p (depth + 1) stack' st1 = (st2, Inl (IncludeCycle q))"
    have "j = nat (maxDepth E + 1 - (depth + 1))" using Suc.hyps(2) by simp
    from Suc.hyps(1) [OF this e1 c1 a1]
    show "\<exists>c'. tranclp (includeStep E) (c, p) (c', q) \<and> tranclp (includeStep E) (c', q) (c', q)" .
  qed simp
qed

lemma expandEach_coherent:
  "coherent E st \<Longrightarrow> coherent E (fst (expandEach E ms fp depth stack st))"
  by (rule expand_state_invariant(2) [where Q = "coherent E"])
     (auto dest: readCached_preserves_coherent(1))

lemma expandEach_inline:
  assumes "expandEach E ms fp depth stack st = (st', Inr r)" "coherent E st"
  shows "inlineEachWithin E (nat (maxDepth E - depth)) ms fp = Some r"
proof (rule expandEach_inlineEach [OF _ assms])
  fix c p stack' st1 st2 r1
  assume c1: "coherent E st1" and e1: "expand E c p (depth + 1) stack' st1 = (st2, Inr r1)"
  from expand_Inr_D [OF e1] have d1: "depth + 1 \<le> maxDepth E" by simp
  then have "nat (maxDepth E - depth) = Suc (nat (maxDepth E - (depth + 1)))" by simp
  with expand_inline [OF e1 c1]
  show "\<exists>k'. nat (maxDepth E - depth) = Suc k' \<and> inlineWithin E k' c p = Some r1" by blast
qed

lemma expandEach_first_error:
  "expandEach E ms fp depth stack st = (st', Inl e) \<Longrightarrow>
     \<exists>i st1 r0. i < length ms \<and> expandEach E (take i ms) fp depth stack st = (st1, Inr r0)
       \<and> expandEach E [ms ! i] fp depth stack st1 = (st', Inl e)"
proof (induction ms arbitrary: st)
  case Nil
  then show ?case by simp
next
  case (Cons x ms)
  have ap: "expandEach E (x # ms) fp depth stack st =
     (case expandEach E [x] fp depth stack st of
        (s, Inl e) \<Rightarrow> (s, Inl e)
      | (s, Inr r) \<Rightarrow>
          (case expandEach E ms fp depth stack s of
             (s', Inl e) \<Rightarrow> (s', Inl e)
           | (s', Inr r') \<Rightarrow> (s', Inr (r @ r'))))"
    using expandEach_append [of E "[x]" ms fp depth stack st] by simp
  obtain s res where one: "expandEach E [x] fp depth stack st = (s, res)"
    by (cases "expandEach E [x] fp depth stack st")
  show ?case
  proof (cases res)
    case (Inl e')
    then have "expandEach E (x # ms) fp depth stack st = (s, Inl e')" using ap one by simp
    then have "s = st'" "e' = e" using Cons.prems by simp_all
    then have "expandEach E [(x # ms) ! 0] fp depth stack st = (st', Inl e)" using one Inl by simp
    moreover have "expandEach E (take 0 (x # ms)) fp depth stack st = (st, Inr [])" by simp
    ultimately show ?thesis by (intro exI [of _ 0] exI [of _ st] exI [of _ "[]"]) simp
  next
    case (Inr r)
    then have "expandEach E ms fp depth stack s = (st', Inl e)"
      using ap one Cons.prems by (auto split: prod.splits sum.splits)
    from Cons.IH [OF this] obtain i st1 r0 where i: "i < length ms"
      and a: "expandEach E (take i ms) fp depth stack s = (st1, Inr r0)"
      and b: "expandEach E [ms ! i] fp depth stack st1 = (st', Inl e)" by blast
    have "expandEach E ([x] @ take i ms) fp depth stack st = (st1, Inr (r @ r0))"
      unfolding expandEach_append one Inr using a by simp
    then have "expandEach E (take (Suc i) (x # ms)) fp depth stack st = (st1, Inr (r @ r0))" by simp
    moreover have "expandEach E [(x # ms) ! Suc i] fp depth stack st1 = (st', Inl e)" using b by simp
    moreover have "Suc i < length (x # ms)" using i by simp
    ultimately show ?thesis by blast
  qed
qed

lemma first_error_branch:
  "expand E input fp depth stack st = (st', Inl e) \<Longrightarrow> coherent E st \<Longrightarrow>
     \<exists>chain l lp. branch E depth input fp chain = Some (l, lp)
       \<and> distinct (map (fst \<circ> snd) chain) \<and> set (map (fst \<circ> snd) chain) \<inter> stack = {}
       \<and> ((int (length chain) = (if depth \<le> maxDepth E then maxDepth E + 1 - depth else 0)
            \<and> e = DepthExceeded (maxDepth E) lp)
          \<or> (depth + int (length chain) \<le> maxDepth E
              \<and> (\<exists>i. reachesDirective E (depth + int (length chain)) l lp i
                   \<and> (directiveTarget E l lp i = Inl e
                      \<or> (\<exists>q. directiveTarget E l lp i = Inr q
                           \<and> (q \<in> stack \<union> set (map (fst \<circ> snd) chain) \<and> e = IncludeCycle q
                              \<or> q \<notin> stack \<union> set (map (fst \<circ> snd) chain)
                                  \<and> fileSystem E q = None \<and> e = ReadFailed q))))))"
proof (induction "nat (maxDepth E + 1 - depth)" arbitrary: input fp depth stack st st')
  case 0
  then have deep: "maxDepth E < depth" by simp
  from expand_too_deep [OF this, of input fp stack st] 0(2)
  have "e = DepthExceeded (maxDepth E) fp" by simp
  then show ?case using deep
    by (intro exI [of _ "[]"] exI [of _ input] exI [of _ fp]) simp
next
  case (Suc j)
  then have d: "depth \<le> maxDepth E" by simp
  let ?ms = "fst (includeMatches input)"
  from expand_Inl_D [OF Suc.prems(1)] d have
    ee: "expandEach E ?ms fp depth stack st = (st', Inl e)" by auto
  from expandEach_first_error [OF ee] obtain i st1 r0 where i: "i < length ?ms"
    and pre: "expandEach E (take i ?ms) fp depth stack st = (st1, Inr r0)"
    and one: "expandEach E [?ms ! i] fp depth stack st1 = (st', Inl e)" by blast
  have c1: "coherent E st1"
    using expandEach_coherent [OF Suc.prems(2), of "take i ?ms" fp depth stack] pre by simp
  have "inlineEachWithin E (nat (maxDepth E - depth)) (take i ?ms) fp \<noteq> None"
    using expandEach_inline [OF pre Suc.prems(2)] by simp
  then have re: "reachesDirective E depth input fp i" using i by (simp add: reachesDirective_def)
  obtain before g where bg: "?ms ! i = (before, g)" by (cases "?ms ! i")
  have tg: "directiveTarget E input fp i = resolveIncludePath (workingDir E) (trim g) (repoRoot E) fp"
    by (simp add: directiveTarget_def bg)
  from expandEach_Inl_D [OF one [unfolded bg]]
  consider (esc) "directiveTarget E input fp i = Inl e"
    | (hit) q where "directiveTarget E input fp i = Inr q" "q \<in> stack" "e = IncludeCycle q"
    | (unread) q where "directiveTarget E input fp i = Inr q"
        "q \<notin> stack" "readCached E q st1 = (st', None)" "e = ReadFailed q"
    | (child) q st2 c where
        "directiveTarget E input fp i = Inr q" "q \<notin> stack"
        "readCached E q st1 = (st2, Some c)"
        "expand E c q (depth + 1) (insert q stack) st2 = (st', Inl e)"
    unfolding tg by auto
  then show ?case
  proof cases
    case esc
    show ?thesis
      by (intro exI [of _ "[]"] exI [of _ input] exI [of _ fp])
         (use d re esc in auto)
  next
    case hit
    show ?thesis
      by (intro exI [of _ "[]"] exI [of _ input] exI [of _ fp])
         (use d re hit in auto)
  next
    case unread
    have "fileSystem E q = None"
      using readCached_preserves_coherent(2) [OF c1 unread(3)] by simp
    then show ?thesis
      by (intro exI [of _ "[]"] exI [of _ input] exI [of _ fp])
         (use d re unread in auto)
  next
    case child
    note c2 = readCached_preserves_coherent [OF c1 child(3)]
    have fs: "fileSystem E q = Some c" using c2(2) by simp
    have "j = nat (maxDepth E + 1 - (depth + 1))" using Suc.hyps(2) by simp
    from Suc.hyps(1) [OF this child(4) c2(1)] obtain chain l lp where
      br: "branch E (depth + 1) c q chain = Some (l, lp)"
      and di: "distinct (map (fst \<circ> snd) chain)"
      and dj: "set (map (fst \<circ> snd) chain) \<inter> insert q stack = {}"
      and alt: "((int (length chain) = (if depth + 1 \<le> maxDepth E then maxDepth E + 1 - (depth + 1) else 0)
            \<and> e = DepthExceeded (maxDepth E) lp)
          \<or> (depth + 1 + int (length chain) \<le> maxDepth E
              \<and> (\<exists>i. reachesDirective E (depth + 1 + int (length chain)) l lp i
                   \<and> (directiveTarget E l lp i = Inl e
                      \<or> (\<exists>q'. directiveTarget E l lp i = Inr q'
                           \<and> (q' \<in> insert q stack \<union> set (map (fst \<circ> snd) chain) \<and> e = IncludeCycle q'
                              \<or> q' \<notin> insert q stack \<union> set (map (fst \<circ> snd) chain)
                                  \<and> fileSystem E q' = None \<and> e = ReadFailed q'))))))"
      by blast
    let ?chain = "(i, q, c) # chain"
    have b: "branch E depth input fp ?chain = Some (l, lp)"
      using re child(1) fs br by simp
    have di': "distinct (map (fst \<circ> snd) ?chain)" using di dj by (auto simp: comp_def)
    have dj': "set (map (fst \<circ> snd) ?chain) \<inter> stack = {}"
      using dj child(2) by (auto simp: comp_def)
    have args: "depth + 1 + int (length chain) = depth + int (length ?chain)"
      "insert q stack \<union> set (map (fst \<circ> snd) chain) = stack \<union> set (map (fst \<circ> snd) ?chain)"
      by (auto simp: comp_def)
    have len: "(if depth + 1 \<le> maxDepth E then maxDepth E + 1 - (depth + 1) else 0) + 1
        = (if depth \<le> maxDepth E then maxDepth E + 1 - depth else 0)"
      using d by auto
    have "((int (length ?chain) = (if depth \<le> maxDepth E then maxDepth E + 1 - depth else 0)
            \<and> e = DepthExceeded (maxDepth E) lp)
          \<or> (depth + int (length ?chain) \<le> maxDepth E
              \<and> (\<exists>i. reachesDirective E (depth + int (length ?chain)) l lp i
                   \<and> (directiveTarget E l lp i = Inl e
                      \<or> (\<exists>q'. directiveTarget E l lp i = Inr q'
                           \<and> (q' \<in> stack \<union> set (map (fst \<circ> snd) ?chain) \<and> e = IncludeCycle q'
                              \<or> q' \<notin> stack \<union> set (map (fst \<circ> snd) ?chain)
                                  \<and> fileSystem E q' = None \<and> e = ReadFailed q'))))))"
      using alt
    proof
      assume "int (length chain) = (if depth + 1 \<le> maxDepth E then maxDepth E + 1 - (depth + 1) else 0)
            \<and> e = DepthExceeded (maxDepth E) lp"
      then show ?thesis using len by simp
    next
      assume "depth + 1 + int (length chain) \<le> maxDepth E
              \<and> (\<exists>i. reachesDirective E (depth + 1 + int (length chain)) l lp i
                   \<and> (directiveTarget E l lp i = Inl e
                      \<or> (\<exists>q'. directiveTarget E l lp i = Inr q'
                           \<and> (q' \<in> insert q stack \<union> set (map (fst \<circ> snd) chain) \<and> e = IncludeCycle q'
                              \<or> q' \<notin> insert q stack \<union> set (map (fst \<circ> snd) chain)
                                  \<and> fileSystem E q' = None \<and> e = ReadFailed q'))))"
      then show ?thesis unfolding args by (rule disjI2)
    qed
    with b di' dj' show ?thesis by blast
  qed
qed

lemma success_iff:
  "(snd (expand E content cur 0 {} freshState) = Inr r) =
     (0 \<le> maxDepth E \<and> inlineWithin E (nat (maxDepth E)) content cur = Some r)"
proof
  assume a: "snd (expand E content cur 0 {} freshState) = Inr r"
  obtain st' where e: "expand E content cur 0 {} freshState = (st', Inr r)"
    using a by (cases "expand E content cur 0 {} freshState") simp
  from expand_Inr_D [OF e] have "0 \<le> maxDepth E" by simp
  moreover from expand_inline [OF e coherent_fresh]
  have "inlineWithin E (nat (maxDepth E)) content cur = Some r" by simp
  ultimately show "0 \<le> maxDepth E \<and> inlineWithin E (nat (maxDepth E)) content cur = Some r" ..
next
  assume a: "0 \<le> maxDepth E \<and> inlineWithin E (nat (maxDepth E)) content cur = Some r"
  then have "0 + int (nat (maxDepth E)) \<le> maxDepth E" by simp
  from inline_expand [OF conjunct2 [OF a] coherent_fresh this ancestors_empty]
  show "snd (expand E content cur 0 {} freshState) = Inr r" by auto
qed

lemma fits_success:
  assumes "inlineWithin E k content cur = Some r" "int k \<le> maxDepth E"
  shows "snd (expand E content cur 0 {} freshState) = Inr r"
proof -
  have "0 + int k \<le> maxDepth E" using assms(2) by simp
  from inline_expand [OF assms(1) coherent_fresh this ancestors_empty] show ?thesis by auto
qed

lemma long_chain_fails:
  assumes "includeChain E (content, cur) ns" "maxDepth E < int (length ns)"
  shows "\<exists>e. snd (expand E content cur 0 {} freshState) = Inl e"
proof (cases "snd (expand E content cur 0 {} freshState)")
  case (Inl e)
  then show ?thesis by blast
next
  case (Inr r)
  then have "0 \<le> maxDepth E" "inlineWithin E (nat (maxDepth E)) content cur = Some r"
    unfolding success_iff by simp_all
  with inline_chain [OF assms(1), of "nat (maxDepth E)" r] assms(2) show ?thesis by simp
qed

lemma target_error: "directiveTarget E l lp i = Inl e \<Longrightarrow> \<exists>inc. e = PathEscape inc"
  unfolding directiveTarget_def by (blast dest: resolve_error)

lemma depth_error_iff:
  "(snd (expand E content cur 0 {} freshState) = Inl (DepthExceeded m p)) =
     (m = maxDepth E \<and>
      (\<exists>chain l. branch E 0 content cur chain = Some (l, p)
         \<and> length chain = nat (maxDepth E + 1) \<and> distinct (map (fst \<circ> snd) chain)))"
proof
  assume a: "snd (expand E content cur 0 {} freshState) = Inl (DepthExceeded m p)"
  obtain st' where e: "expand E content cur 0 {} freshState = (st', Inl (DepthExceeded m p))"
    using a by (cases "expand E content cur 0 {} freshState") simp
  from first_error_branch [OF e coherent_fresh] obtain chain l lp where
    br: "branch E 0 content cur chain = Some (l, lp)"
    and di: "distinct (map (fst \<circ> snd) chain)"
    and alt: "(int (length chain) = (if 0 \<le> maxDepth E then maxDepth E + 1 - 0 else 0)
            \<and> DepthExceeded m p = DepthExceeded (maxDepth E) lp)
          \<or> (0 + int (length chain) \<le> maxDepth E
              \<and> (\<exists>i. reachesDirective E (0 + int (length chain)) l lp i
                   \<and> (directiveTarget E l lp i = Inl (DepthExceeded m p)
                      \<or> (\<exists>q'. directiveTarget E l lp i = Inr q'
                           \<and> (q' \<in> {} \<union> set (map (fst \<circ> snd) chain) \<and> DepthExceeded m p = IncludeCycle q'
                              \<or> q' \<notin> {} \<union> set (map (fst \<circ> snd) chain)
                                  \<and> fileSystem E q' = None \<and> DepthExceeded m p = ReadFailed q')))))"
    by blast
  from alt have "int (length chain) = (if 0 \<le> maxDepth E then maxDepth E + 1 - 0 else 0)
            \<and> DepthExceeded m p = DepthExceeded (maxDepth E) lp"
    by (auto dest: target_error)
  then have L: "int (length chain) = (if 0 \<le> maxDepth E then maxDepth E + 1 else 0)"
    and "m = maxDepth E" "lp = p" by auto
  have "length chain = nat (int (length chain))" by simp
  also have "\<dots> = nat (maxDepth E + 1)" unfolding L by simp
  finally have "length chain = nat (maxDepth E + 1)" .
  note \<open>m = maxDepth E\<close> \<open>lp = p\<close> this
  with br di show "m = maxDepth E \<and>
      (\<exists>chain l. branch E 0 content cur chain = Some (l, p)
         \<and> length chain = nat (maxDepth E + 1) \<and> distinct (map (fst \<circ> snd) chain))" by blast
next
  assume a: "m = maxDepth E \<and>
      (\<exists>chain l. branch E 0 content cur chain = Some (l, p)
         \<and> length chain = nat (maxDepth E + 1) \<and> distinct (map (fst \<circ> snd) chain))"
  then obtain chain l where m: "m = maxDepth E"
    and br: "branch E 0 content cur chain = Some (l, p)"
    and len: "length chain = nat (maxDepth E + 1)"
    and di: "distinct (map (fst \<circ> snd) chain)" by blast
  show "snd (expand E content cur 0 {} freshState) = Inl (DepthExceeded m p)"
  proof (cases "0 \<le> maxDepth E")
    case False
    then have "chain = []" using len by simp
    then have "p = cur" using br by simp
    moreover have "maxDepth E < 0" using False by simp
    ultimately show ?thesis using m by (simp add: expand_too_deep)
  next
    case True
    have ne: "chain \<noteq> []" using len True by auto
    have tk: "take (Suc (nat (maxDepth E))) chain = chain" using len True by simp
    have d2: "maxDepth E < 0 + int (length chain)" using len True by simp
    have R: "snd (expand E content cur 0 {} freshState) =
        Inl (DepthExceeded (maxDepth E) (fst (snd (chain ! nat (maxDepth E - 0)))))"
      by (rule branch_depth_exceeded [OF br _ _ coherent_fresh ancestors_empty True d2])
         (simp_all add: tk di)
    have idx: "nat (maxDepth E - 0) = length chain - 1" using len True by simp
    have "chain ! (length chain - 1) = last chain" using ne by (simp add: last_conv_nth)
    then have "fst (snd (chain ! nat (maxDepth E - 0))) = p"
      unfolding idx using branch_last [OF br ne] by simp
    then show ?thesis using R m by simp
  qed
qed

lemma long_branch_fails:
  assumes br: "branch E 0 content cur chain = Some (l, lp)"
    and di: "distinct (map (fst \<circ> snd) (take (nat (maxDepth E) + 1) chain))"
    and d1: "0 \<le> maxDepth E" and d2: "maxDepth E < int (length chain)"
  shows "snd (expand E content cur 0 {} freshState) =
     Inl (DepthExceeded (maxDepth E) (fst (snd (chain ! nat (maxDepth E)))))"
proof -
  have d2': "maxDepth E < 0 + int (length chain)" using d2 by simp
  have "snd (expand E content cur 0 {} freshState) =
        Inl (DepthExceeded (maxDepth E) (fst (snd (chain ! nat (maxDepth E - 0)))))"
    by (rule branch_depth_exceeded [OF br _ _ coherent_fresh ancestors_empty d1 d2'])
       (use di in simp_all)
  then show ?thesis by simp
qed

lemma cycle_error_iff:
  "(snd (expand E content cur 0 {} freshState) = Inl (IncludeCycle q)) =
     (\<exists>chain l lp i. branch E 0 content cur chain = Some (l, lp)
        \<and> distinct (map (fst \<circ> snd) chain) \<and> int (length chain) \<le> maxDepth E
        \<and> reachesDirective E (int (length chain)) l lp i
        \<and> directiveTarget E l lp i = Inr q
        \<and> q \<in> set (map (fst \<circ> snd) chain))"
proof
  assume a: "snd (expand E content cur 0 {} freshState) = Inl (IncludeCycle q)"
  obtain st' where e: "expand E content cur 0 {} freshState = (st', Inl (IncludeCycle q))"
    using a by (cases "expand E content cur 0 {} freshState") simp
  from first_error_branch [OF e coherent_fresh] obtain chain l lp where
    br: "branch E 0 content cur chain = Some (l, lp)"
    and di: "distinct (map (fst \<circ> snd) chain)"
    and alt: "(int (length chain) = (if 0 \<le> maxDepth E then maxDepth E + 1 - 0 else 0)
            \<and> IncludeCycle q = DepthExceeded (maxDepth E) lp)
          \<or> (0 + int (length chain) \<le> maxDepth E
              \<and> (\<exists>i. reachesDirective E (0 + int (length chain)) l lp i
                   \<and> (directiveTarget E l lp i = Inl (IncludeCycle q)
                      \<or> (\<exists>q'. directiveTarget E l lp i = Inr q'
                           \<and> (q' \<in> {} \<union> set (map (fst \<circ> snd) chain) \<and> IncludeCycle q = IncludeCycle q'
                              \<or> q' \<notin> {} \<union> set (map (fst \<circ> snd) chain)
                                  \<and> fileSystem E q' = None \<and> IncludeCycle q = ReadFailed q')))))"
    by blast
  from alt obtain i where "int (length chain) \<le> maxDepth E"
    "reachesDirective E (int (length chain)) l lp i"
    "directiveTarget E l lp i = Inr q" "q \<in> set (map (fst \<circ> snd) chain)"
    by (auto dest: target_error)
  with br di show "\<exists>chain l lp i. branch E 0 content cur chain = Some (l, lp)
        \<and> distinct (map (fst \<circ> snd) chain) \<and> int (length chain) \<le> maxDepth E
        \<and> reachesDirective E (int (length chain)) l lp i
        \<and> directiveTarget E l lp i = Inr q
        \<and> q \<in> set (map (fst \<circ> snd) chain)" by blast
next
  assume "\<exists>chain l lp i. branch E 0 content cur chain = Some (l, lp)
        \<and> distinct (map (fst \<circ> snd) chain) \<and> int (length chain) \<le> maxDepth E
        \<and> reachesDirective E (int (length chain)) l lp i
        \<and> directiveTarget E l lp i = Inr q
        \<and> q \<in> set (map (fst \<circ> snd) chain)"
  then obtain chain l lp i where br: "branch E 0 content cur chain = Some (l, lp)"
    and di: "distinct (map (fst \<circ> snd) chain)"
    and le: "int (length chain) \<le> maxDepth E"
    and re: "reachesDirective E (int (length chain)) l lp i"
    and tg: "directiveTarget E l lp i = Inr q"
    and q: "q \<in> set (map (fst \<circ> snd) chain)" by blast
  show "snd (expand E content cur 0 {} freshState) = Inl (IncludeCycle q)"
  proof (rule branch_cycle [OF br di _ coherent_fresh ancestors_empty _ prod.collapse [symmetric]])
    show "set (map (fst \<circ> snd) chain) \<inter> {} = {}" by simp
    show "0 + int (length chain) \<le> maxDepth E" using le by simp
    show "i < length (fst (includeMatches l))" using re by (simp add: reachesDirective_def)
    show "inlineEachWithin E (nat (maxDepth E - (0 + int (length chain))))
        (take i (fst (includeMatches l))) lp \<noteq> None"
      using re by (simp add: reachesDirective_def)
    show "resolveIncludePath (workingDir E) (trim (snd (fst (includeMatches l) ! i))) (repoRoot E) lp = Inr q"
      using tg by (simp add: directiveTarget_def)
    show "q \<in> {} \<union> set (map (fst \<circ> snd) chain)" using q by simp
  qed
qed

section \<open>Include expander: the depth limit\<close>

text \<open>
  C2, as the code has it. The maximum depth is 5 when the option is absent. The call
  returns a text exactly when the whole include tree of the content can be inlined within
  \<open>maxDepth\<close> levels, and the text is then the complete inlined text; so a tree nested no
  deeper than the maximum succeeds and nothing is cut. Whenever some include chain from the
  content is longer than the maximum, the call fails. A branch of distinct files that is
  longer than the maximum, where the directives before the one followed expand fully, fails
  with the depth-exceeded error at its file number \<open>maxDepth + 1\<close>; and the depth-exceeded
  error is only ever the result of such a branch of exactly \<open>maxDepth + 1\<close> files. A
  negative maximum fails at the content itself.
\<close>

theorem depth_limit_boundary:
  fixes fs cwd optRoot optMax E
  defines "E \<equiv> expandEnvOf fs cwd optRoot optMax"
  shows "maxDepth E = (case optMax of None \<Rightarrow> 5 | Some d \<Rightarrow> d)
     \<and> ((snd (expandIncludeDirectives fs cwd content optRoot cur optMax) = Inr r) =
          (0 \<le> maxDepth E \<and> inlineWithin E (nat (maxDepth E)) content cur = Some r))
     \<and> (inlineWithin E k content cur = Some r' \<and> int k \<le> maxDepth E \<longrightarrow>
           snd (expandIncludeDirectives fs cwd content optRoot cur optMax) = Inr r')
     \<and> (includeChain E (content, cur) ns \<and> maxDepth E < int (length ns) \<longrightarrow>
           (\<exists>e. snd (expandIncludeDirectives fs cwd content optRoot cur optMax) = Inl e))
     \<and> (branch E 0 content cur chain = Some (l, lp)
          \<and> distinct (map (fst \<circ> snd) (take (nat (maxDepth E) + 1) chain))
          \<and> 0 \<le> maxDepth E \<and> maxDepth E < int (length chain) \<longrightarrow>
           snd (expandIncludeDirectives fs cwd content optRoot cur optMax) =
             Inl (DepthExceeded (maxDepth E) (fst (snd (chain ! nat (maxDepth E))))))
     \<and> (snd (expandIncludeDirectives fs cwd content optRoot cur optMax) = Inl (DepthExceeded m p) \<longrightarrow>
           m = maxDepth E
           \<and> (\<exists>chain' l'. branch E 0 content cur chain' = Some (l', p)
                 \<and> length chain' = nat (maxDepth E + 1) \<and> distinct (map (fst \<circ> snd) chain')))
     \<and> (maxDepth E < 0 \<longrightarrow>
           snd (expandIncludeDirectives fs cwd content optRoot cur optMax) =
             Inl (DepthExceeded (maxDepth E) cur))"
proof -
  have top: "expandIncludeDirectives fs cwd content optRoot cur optMax =
      expand E content cur 0 {} freshState"
    unfolding E_def by (rule expandIncludeDirectives_expand)
  have default: "maxDepth E = (case optMax of None \<Rightarrow> 5 | Some d \<Rightarrow> d)"
    by (simp add: E_def expandEnvOf_def)
  have success: "(snd (expandIncludeDirectives fs cwd content optRoot cur optMax) = Inr r) =
          (0 \<le> maxDepth E \<and> inlineWithin E (nat (maxDepth E)) content cur = Some r)"
    unfolding top by (rule success_iff)
  have fits: "snd (expandIncludeDirectives fs cwd content optRoot cur optMax) = Inr r'"
    if "inlineWithin E k content cur = Some r' \<and> int k \<le> maxDepth E"
    unfolding top using that by (intro fits_success) auto
  have long: "\<exists>e. snd (expandIncludeDirectives fs cwd content optRoot cur optMax) = Inl e"
    if "includeChain E (content, cur) ns \<and> maxDepth E < int (length ns)"
    unfolding top using that by (intro long_chain_fails [where ns = ns]) auto
  have deep: "snd (expandIncludeDirectives fs cwd content optRoot cur optMax) =
             Inl (DepthExceeded (maxDepth E) (fst (snd (chain ! nat (maxDepth E)))))"
    if "branch E 0 content cur chain = Some (l, lp)
          \<and> distinct (map (fst \<circ> snd) (take (nat (maxDepth E) + 1) chain))
          \<and> 0 \<le> maxDepth E \<and> maxDepth E < int (length chain)"
    unfolding top using that by (intro long_branch_fails [where l = l and lp = lp]) auto
  have only: "m = maxDepth E
           \<and> (\<exists>chain' l'. branch E 0 content cur chain' = Some (l', p)
                 \<and> length chain' = nat (maxDepth E + 1) \<and> distinct (map (fst \<circ> snd) chain'))"
    if "snd (expandIncludeDirectives fs cwd content optRoot cur optMax) = Inl (DepthExceeded m p)"
    using that unfolding top depth_error_iff .
  have negative: "snd (expandIncludeDirectives fs cwd content optRoot cur optMax) =
             Inl (DepthExceeded (maxDepth E) cur)"
    if "maxDepth E < 0"
    unfolding top using that by (simp add: expand_too_deep)
  show ?thesis using default success fits long deep only negative by blast
qed

lemma leafChain_examples:
  "branch (expandEnvOf (map_of leafChain) ''/'' ''/r'' None) 0 behindSibling ''/r/top.md'' siblingBranch
     = Some (''6'', ''/r/f6.md'')"
  "distinct (map (fst \<circ> snd)
     (take (nat (maxDepth (expandEnvOf (map_of leafChain) ''/'' ''/r'' None)) + 1) siblingBranch))"
  "0 \<le> maxDepth (expandEnvOf (map_of leafChain) ''/'' ''/r'' None)"
  "maxDepth (expandEnvOf (map_of leafChain) ''/'' ''/r'' None) < int (length siblingBranch)"
  "fst (snd (siblingBranch ! nat (maxDepth (expandEnvOf (map_of leafChain) ''/'' ''/r'' None)))) = ''/r/f6.md''"
  "maxDepth (expandEnvOf (map_of leafChain) ''/'' ''/r'' None) = 5"
  "inlineWithin (expandEnvOf (map_of leafChain) ''/'' ''/r'' None) 1 sevenLeaves ''/r/top.md'' = Some ''LLLLLLL''"
  "inlineWithin (expandEnvOf (map_of leafChain) ''/'' ''/r'' None) 5 ''1[!!!include(f2.md)!!!]'' ''/r/f1.md''
     = Some ''1[2[3[4[5[6]]]]]''"
  "includeChain (expandEnvOf (map_of leafChain) ''/'' ''/r'' None) (behindSibling, ''/r/top.md'')
     (map prod.swap sixChain)"
  "int (length (map prod.swap sixChain)) = 6"
  "nat (int 5 + 1) = 6"
  "maxDepth (expandEnvOf (map_of leafChain) ''/'' ''/r'' (Some (- 1))) = - 1"
  by code_simp+

theorem depth_limit_boundary_witness:
  "branch (expandEnvOf (map_of leafChain) ''/'' ''/r'' None) 0 behindSibling ''/r/top.md'' siblingBranch
     = Some (''6'', ''/r/f6.md'')
   \<and> includeChain (expandEnvOf (map_of leafChain) ''/'' ''/r'' None) (behindSibling, ''/r/top.md'')
        (map prod.swap sixChain)
   \<and> snd (expandIncludeDirectives (map_of leafChain) ''/'' behindSibling ''/r'' ''/r/top.md'' None) =
       Inl (DepthExceeded 5 ''/r/f6.md'')
   \<and> (\<exists>chain' l'. branch (expandEnvOf (map_of leafChain) ''/'' ''/r'' None) 0 behindSibling ''/r/top.md'' chain'
          = Some (l', ''/r/f6.md'')
        \<and> length chain' = 6 \<and> distinct (map (fst \<circ> snd) chain'))
   \<and> inlineWithin (expandEnvOf (map_of leafChain) ''/'' ''/r'' None) 1 sevenLeaves ''/r/top.md'' = Some ''LLLLLLL''
   \<and> snd (expandIncludeDirectives (map_of leafChain) ''/'' sevenLeaves ''/r'' ''/r/top.md'' None) =
       Inr ''LLLLLLL''
   \<and> inlineWithin (expandEnvOf (map_of leafChain) ''/'' ''/r'' None) 5 ''1[!!!include(f2.md)!!!]'' ''/r/f1.md''
       = Some ''1[2[3[4[5[6]]]]]''
   \<and> snd (expandIncludeDirectives (map_of leafChain) ''/'' ''1[!!!include(f2.md)!!!]'' ''/r'' ''/r/f1.md'' None) =
       Inr ''1[2[3[4[5[6]]]]]''
   \<and> snd (expandIncludeDirectives (map_of leafChain) ''/'' sevenLeaves ''/r'' ''/r/top.md'' (Some (- 1))) =
       Inl (DepthExceeded (- 1) ''/r/top.md'')"
proof -
  note t1 = depth_limit_boundary [where fs = "map_of leafChain" and cwd = "''/''" and optRoot = "''/r''"
      and optMax = None and content = behindSibling and cur = "''/r/top.md''"
      and chain = siblingBranch and l = "''6''" and lp = "''/r/f6.md''"
      and ns = "map prod.swap sixChain" and m = 5 and p = "''/r/f6.md''"]
  note t2 = depth_limit_boundary [where fs = "map_of leafChain" and cwd = "''/''" and optRoot = "''/r''"
      and optMax = None and content = sevenLeaves and cur = "''/r/top.md''"
      and k = 1 and r' = "''LLLLLLL''"]
  note t3 = depth_limit_boundary [where fs = "map_of leafChain" and cwd = "''/''" and optRoot = "''/r''"
      and optMax = None and content = "''1[!!!include(f2.md)!!!]''" and cur = "''/r/f1.md''"
      and k = 5 and r' = "''1[2[3[4[5[6]]]]]''"]
  have a: "snd (expandIncludeDirectives (map_of leafChain) ''/'' behindSibling ''/r'' ''/r/top.md'' None) =
       Inl (DepthExceeded 5 ''/r/f6.md'')"
    using t1 leafChain_examples(1-6) by simp
  have b: "\<exists>chain' l'. branch (expandEnvOf (map_of leafChain) ''/'' ''/r'' None) 0 behindSibling ''/r/top.md'' chain'
          = Some (l', ''/r/f6.md'')
        \<and> length chain' = 6 \<and> distinct (map (fst \<circ> snd) chain')"
    using t1 a leafChain_examples(6,11) by simp
  have c: "snd (expandIncludeDirectives (map_of leafChain) ''/'' sevenLeaves ''/r'' ''/r/top.md'' None) =
       Inr ''LLLLLLL''"
    using t2 leafChain_examples(6,7) by simp
  have d: "snd (expandIncludeDirectives (map_of leafChain) ''/'' ''1[!!!include(f2.md)!!!]'' ''/r'' ''/r/f1.md'' None) =
       Inr ''1[2[3[4[5[6]]]]]''"
    using t3 leafChain_examples(6,8) by simp
  have e: "snd (expandIncludeDirectives (map_of leafChain) ''/'' sevenLeaves ''/r'' ''/r/top.md'' (Some (- 1))) =
       Inl (DepthExceeded (- 1) ''/r/top.md'')"
    using depth_limit_boundary [where fs = "map_of leafChain" and cwd = "''/''" and optRoot = "''/r''"
      and optMax = "Some (- 1)" and content = sevenLeaves and cur = "''/r/top.md''"]
      leafChain_examples(12) by simp
  show ?thesis using a b c d e leafChain_examples(1,7,8,9) by simp
qed

lemma missingThenChain_examples:
  "includeChain (expandEnvOf (map_of leafChain) ''/'' ''/r'' None) (missingThenChain, ''/r/top.md'')
     (map prod.swap sixChain)"
  "maxDepth (expandEnvOf (map_of leafChain) ''/'' ''/r'' None) < int (length (map prod.swap sixChain))"
  "snd (expandIncludeDirectives (map_of leafChain) ''/'' missingThenChain ''/r'' ''/r/top.md'' None) =
     Inl (ReadFailed ''/r/missing.md'')"
  by code_simp+

text \<open>
  C2 as stated fails: the content includes an unreadable file and then starts a chain of
  six files, one more than the default maximum. The loop fails at the first directive with
  the read error; the chain is never followed and no depth-exceeded error is raised.
\<close>

theorem long_chain_behind_unreadable:
  "includeChain (expandEnvOf (map_of leafChain) ''/'' ''/r'' None) (missingThenChain, ''/r/top.md'')
     (map prod.swap sixChain)
   \<and> maxDepth (expandEnvOf (map_of leafChain) ''/'' ''/r'' None) < int (length (map prod.swap sixChain))
   \<and> snd (expandIncludeDirectives (map_of leafChain) ''/'' missingThenChain ''/r'' ''/r/top.md'' None) =
       Inl (ReadFailed ''/r/missing.md'')
   \<and> snd (expandIncludeDirectives (map_of leafChain) ''/'' missingThenChain ''/r'' ''/r/top.md'' None) \<noteq>
       Inl (DepthExceeded 5 ''/r/f6.md'')"
  using missingThenChain_examples by simp

section \<open>Include expander: cycles\<close>

lemma cyclic_expansion_fails:
  assumes "cyclicFrom E (content, cur)"
  shows "\<exists>e. snd (expand E content cur 0 {} freshState) = Inl e"
proof (cases "snd (expand E content cur 0 {} freshState)")
  case (Inl e)
  then show ?thesis by blast
next
  case (Inr r)
  then have "inlineWithin E (nat (maxDepth E)) (fst (content, cur)) (snd (content, cur)) = Some r"
    unfolding success_iff by simp
  from inline_not_cyclic [OF this] assms show ?thesis by simp
qed

text \<open>
  C3, as the code has it. When the loop meets a directive whose resolved path is on the
  stack it fails with the include-cycle error and neither reads nor recurses. Whenever a
  cycle is reachable from the content, the expansion fails. It fails with the include-cycle
  error at a file when a branch of distinct files, no longer than the maximum depth and with
  the directives before the one followed expanding fully, leads to a text in which a
  directive, reached in the same way, resolves to that file of the branch (the graph A, B, A
  is the case of two files). The include-cycle error is only ever the result of such a
  branch, and the file it names lies on a cycle that is reachable from the content.
\<close>

theorem include_cycle_detection:
  fixes fs cwd optRoot optMax E
  defines "E \<equiv> expandEnvOf fs cwd optRoot optMax"
  shows "(resolveIncludePath (workingDir E') (trim g) (repoRoot E') fp = Inr p \<and> p \<in> stack \<longrightarrow>
           expandEach E' ((before, g) # ms) fp depth stack st = (st, Inl (IncludeCycle p)))
     \<and> (cyclicFrom E (content, cur) \<longrightarrow>
           (\<exists>e. snd (expandIncludeDirectives fs cwd content optRoot cur optMax) = Inl e))
     \<and> (branch E 0 content cur chain = Some (l, lp) \<and> distinct (map (fst \<circ> snd) chain)
          \<and> int (length chain) \<le> maxDepth E
          \<and> reachesDirective E (int (length chain)) l lp i
          \<and> directiveTarget E l lp i = Inr q
          \<and> q \<in> set (map (fst \<circ> snd) chain) \<longrightarrow>
           snd (expandIncludeDirectives fs cwd content optRoot cur optMax) = Inl (IncludeCycle q))
     \<and> (snd (expandIncludeDirectives fs cwd content optRoot cur optMax) = Inl (IncludeCycle q') \<longrightarrow>
           (\<exists>chain' l' lp' i'. branch E 0 content cur chain' = Some (l', lp')
              \<and> distinct (map (fst \<circ> snd) chain') \<and> int (length chain') \<le> maxDepth E
              \<and> reachesDirective E (int (length chain')) l' lp' i'
              \<and> directiveTarget E l' lp' i' = Inr q'
              \<and> q' \<in> set (map (fst \<circ> snd) chain'))
           \<and> (\<exists>c. tranclp (includeStep E) (content, cur) (c, q')
                  \<and> tranclp (includeStep E) (c, q') (c, q')))"
proof -
  have top: "expandIncludeDirectives fs cwd content optRoot cur optMax =
      expand E content cur 0 {} freshState"
    unfolding E_def by (rule expandIncludeDirectives_expand)
  have on_stack: "expandEach E' ((before, g) # ms) fp depth stack st = (st, Inl (IncludeCycle p))"
    if "resolveIncludePath (workingDir E') (trim g) (repoRoot E') fp = Inr p \<and> p \<in> stack"
    using that by (intro cycle_step) auto
  have cyclic: "\<exists>e. snd (expandIncludeDirectives fs cwd content optRoot cur optMax) = Inl e"
    if "cyclicFrom E (content, cur)"
    unfolding top using that by (rule cyclic_expansion_fails)
  have closes: "snd (expandIncludeDirectives fs cwd content optRoot cur optMax) = Inl (IncludeCycle q)"
    if "branch E 0 content cur chain = Some (l, lp) \<and> distinct (map (fst \<circ> snd) chain)
          \<and> int (length chain) \<le> maxDepth E
          \<and> reachesDirective E (int (length chain)) l lp i
          \<and> directiveTarget E l lp i = Inr q
          \<and> q \<in> set (map (fst \<circ> snd) chain)"
    unfolding top cycle_error_iff using that by blast
  have only: "(\<exists>chain' l' lp' i'. branch E 0 content cur chain' = Some (l', lp')
              \<and> distinct (map (fst \<circ> snd) chain') \<and> int (length chain') \<le> maxDepth E
              \<and> reachesDirective E (int (length chain')) l' lp' i'
              \<and> directiveTarget E l' lp' i' = Inr q'
              \<and> q' \<in> set (map (fst \<circ> snd) chain'))
           \<and> (\<exists>c. tranclp (includeStep E) (content, cur) (c, q')
                  \<and> tranclp (includeStep E) (c, q') (c, q'))"
    if a: "snd (expandIncludeDirectives fs cwd content optRoot cur optMax) = Inl (IncludeCycle q')"
  proof
    show "\<exists>chain' l' lp' i'. branch E 0 content cur chain' = Some (l', lp')
              \<and> distinct (map (fst \<circ> snd) chain') \<and> int (length chain') \<le> maxDepth E
              \<and> reachesDirective E (int (length chain')) l' lp' i'
              \<and> directiveTarget E l' lp' i' = Inr q'
              \<and> q' \<in> set (map (fst \<circ> snd) chain')"
      using a unfolding top cycle_error_iff .
    obtain st' where e: "expand E content cur 0 {} freshState = (st', Inl (IncludeCycle q'))"
      using a unfolding top by (cases "expand E content cur 0 {} freshState") simp
    from cycle_error_sound [OF e coherent_fresh ancestors_empty]
    show "\<exists>c. tranclp (includeStep E) (content, cur) (c, q')
                  \<and> tranclp (includeStep E) (c, q') (c, q')" .
  qed
  show ?thesis using on_stack cyclic closes only by blast
qed

lemma twoCycle_examples:
  "branch (expandEnvOf (map_of twoCycle) ''/'' ''/r'' None) 0 ''A[!!!include(b.md)!!!]'' ''/r/a.md''
     twoBranch = Some (''A[!!!include(b.md)!!!]'', ''/r/a.md'')"
  "distinct (map (fst \<circ> snd) twoBranch)"
  "int (length twoBranch) \<le> maxDepth (expandEnvOf (map_of twoCycle) ''/'' ''/r'' None)"
  "reachesDirective (expandEnvOf (map_of twoCycle) ''/'' ''/r'' None) (int (length twoBranch))
     ''A[!!!include(b.md)!!!]'' ''/r/a.md'' 0"
  "directiveTarget (expandEnvOf (map_of twoCycle) ''/'' ''/r'' None)
     ''A[!!!include(b.md)!!!]'' ''/r/a.md'' 0 = Inr ''/r/b.md''"
  "''/r/b.md'' \<in> set (map (fst \<circ> snd) twoBranch)"
  "includeStep (expandEnvOf (map_of twoCycle) ''/'' ''/r'' None)
     (''A[!!!include(b.md)!!!]'', ''/r/a.md'') (''B[!!!include(a.md)!!!]'', ''/r/b.md'')"
  "includeStep (expandEnvOf (map_of twoCycle) ''/'' ''/r'' None)
     (''B[!!!include(a.md)!!!]'', ''/r/b.md'') (''A[!!!include(b.md)!!!]'', ''/r/a.md'')"
  "resolveIncludePath (workingDir (expandEnvOf (map_of twoCycle) ''/'' ''/r'' None)) (trim ''b.md'')
     (repoRoot (expandEnvOf (map_of twoCycle) ''/'' ''/r'' None)) ''/r/a.md'' = Inr ''/r/b.md''"
  by code_simp+

lemma twoCycle_cyclic:
  "cyclicFrom (expandEnvOf (map_of twoCycle) ''/'' ''/r'' None) (''A[!!!include(b.md)!!!]'', ''/r/a.md'')"
proof -
  let ?R = "includeStep (expandEnvOf (map_of twoCycle) ''/'' ''/r'' None)"
  have "tranclp ?R (''A[!!!include(b.md)!!!]'', ''/r/a.md'') (''B[!!!include(a.md)!!!]'', ''/r/b.md'')"
    using twoCycle_examples(7) by (rule tranclp.r_into_trancl)
  then have "tranclp ?R (''A[!!!include(b.md)!!!]'', ''/r/a.md'') (''A[!!!include(b.md)!!!]'', ''/r/a.md'')"
    using twoCycle_examples(8) by (rule tranclp.trancl_into_trancl)
  then show ?thesis unfolding cyclicFrom_def by blast
qed

theorem include_cycle_detection_witness:
  "branch (expandEnvOf (map_of twoCycle) ''/'' ''/r'' None) 0 ''A[!!!include(b.md)!!!]'' ''/r/a.md''
     twoBranch = Some (''A[!!!include(b.md)!!!]'', ''/r/a.md'')
   \<and> distinct (map (fst \<circ> snd) twoBranch)
   \<and> reachesDirective (expandEnvOf (map_of twoCycle) ''/'' ''/r'' None) (int (length twoBranch))
        ''A[!!!include(b.md)!!!]'' ''/r/a.md'' 0
   \<and> directiveTarget (expandEnvOf (map_of twoCycle) ''/'' ''/r'' None)
        ''A[!!!include(b.md)!!!]'' ''/r/a.md'' 0 = Inr ''/r/b.md''
   \<and> ''/r/b.md'' \<in> set (map (fst \<circ> snd) twoBranch)
   \<and> cyclicFrom (expandEnvOf (map_of twoCycle) ''/'' ''/r'' None) (''A[!!!include(b.md)!!!]'', ''/r/a.md'')
   \<and> snd (expandIncludeDirectives (map_of twoCycle) ''/'' ''A[!!!include(b.md)!!!]'' ''/r'' ''/r/a.md'' None) =
       Inl (IncludeCycle ''/r/b.md'')
   \<and> (\<exists>c. tranclp (includeStep (expandEnvOf (map_of twoCycle) ''/'' ''/r'' None))
              (''A[!!!include(b.md)!!!]'', ''/r/a.md'') (c, ''/r/b.md'')
          \<and> tranclp (includeStep (expandEnvOf (map_of twoCycle) ''/'' ''/r'' None))
              (c, ''/r/b.md'') (c, ''/r/b.md''))
   \<and> expandEach (expandEnvOf (map_of twoCycle) ''/'' ''/r'' None) [(''A['', ''b.md'')] ''/r/a.md'' 1
        {''/r/b.md''} freshState = (freshState, Inl (IncludeCycle ''/r/b.md''))"
proof -
  note t = include_cycle_detection [where fs = "map_of twoCycle" and cwd = "''/''" and optRoot = "''/r''"
      and optMax = None and content = "''A[!!!include(b.md)!!!]''" and cur = "''/r/a.md''"
      and chain = twoBranch and l = "''A[!!!include(b.md)!!!]''" and lp = "''/r/a.md''"
      and i = 0 and q = "''/r/b.md''" and q' = "''/r/b.md''"
      and E' = "expandEnvOf (map_of twoCycle) ''/'' ''/r'' None" and g = "''b.md''"
      and fp = "''/r/a.md''" and p = "''/r/b.md''" and stack = "{''/r/b.md''}"
      and before = "''A[''" and ms = "[]" and depth = 1 and st = freshState]
  have a: "snd (expandIncludeDirectives (map_of twoCycle) ''/'' ''A[!!!include(b.md)!!!]'' ''/r'' ''/r/a.md'' None) =
       Inl (IncludeCycle ''/r/b.md'')"
    using t twoCycle_examples(1-6) by simp
  have b: "\<exists>c. tranclp (includeStep (expandEnvOf (map_of twoCycle) ''/'' ''/r'' None))
              (''A[!!!include(b.md)!!!]'', ''/r/a.md'') (c, ''/r/b.md'')
          \<and> tranclp (includeStep (expandEnvOf (map_of twoCycle) ''/'' ''/r'' None))
              (c, ''/r/b.md'') (c, ''/r/b.md'')"
    using t a by simp
  have c: "expandEach (expandEnvOf (map_of twoCycle) ''/'' ''/r'' None) [(''A['', ''b.md'')] ''/r/a.md'' 1
        {''/r/b.md''} freshState = (freshState, Inl (IncludeCycle ''/r/b.md''))"
    using t twoCycle_examples(9) by blast
  show ?thesis using a b c twoCycle_examples(1,2,4,5,6) twoCycle_cyclic by simp
qed

lemma sixCycle_steps:
  "includeStep (expandEnvOf (map_of sixCycle) ''/'' ''/r'' None)
     (''1[!!!include(c2.md)!!!]'', ''/r/c1.md'') (''2[!!!include(c3.md)!!!]'', ''/r/c2.md'')"
  "includeStep (expandEnvOf (map_of sixCycle) ''/'' ''/r'' None)
     (''2[!!!include(c3.md)!!!]'', ''/r/c2.md'') (''3[!!!include(c4.md)!!!]'', ''/r/c3.md'')"
  "includeStep (expandEnvOf (map_of sixCycle) ''/'' ''/r'' None)
     (''3[!!!include(c4.md)!!!]'', ''/r/c3.md'') (''4[!!!include(c5.md)!!!]'', ''/r/c4.md'')"
  "includeStep (expandEnvOf (map_of sixCycle) ''/'' ''/r'' None)
     (''4[!!!include(c5.md)!!!]'', ''/r/c4.md'') (''5[!!!include(c6.md)!!!]'', ''/r/c5.md'')"
  "includeStep (expandEnvOf (map_of sixCycle) ''/'' ''/r'' None)
     (''5[!!!include(c6.md)!!!]'', ''/r/c5.md'') (''6[!!!include(c1.md)!!!]'', ''/r/c6.md'')"
  "includeStep (expandEnvOf (map_of sixCycle) ''/'' ''/r'' None)
     (''6[!!!include(c1.md)!!!]'', ''/r/c6.md'') (''1[!!!include(c2.md)!!!]'', ''/r/c1.md'')"
  by code_simp+

lemma sixCycle_cyclic:
  "cyclicFrom (expandEnvOf (map_of sixCycle) ''/'' ''/r'' None) (''1[!!!include(c2.md)!!!]'', ''/r/c1.md'')"
proof -
  let ?R = "includeStep (expandEnvOf (map_of sixCycle) ''/'' ''/r'' None)"
  have "tranclp ?R (''1[!!!include(c2.md)!!!]'', ''/r/c1.md'') (''2[!!!include(c3.md)!!!]'', ''/r/c2.md'')"
    using sixCycle_steps(1) by (rule tranclp.r_into_trancl)
  then have "tranclp ?R (''1[!!!include(c2.md)!!!]'', ''/r/c1.md'') (''3[!!!include(c4.md)!!!]'', ''/r/c3.md'')"
    using sixCycle_steps(2) by (rule tranclp.trancl_into_trancl)
  then have "tranclp ?R (''1[!!!include(c2.md)!!!]'', ''/r/c1.md'') (''4[!!!include(c5.md)!!!]'', ''/r/c4.md'')"
    using sixCycle_steps(3) by (rule tranclp.trancl_into_trancl)
  then have "tranclp ?R (''1[!!!include(c2.md)!!!]'', ''/r/c1.md'') (''5[!!!include(c6.md)!!!]'', ''/r/c5.md'')"
    using sixCycle_steps(4) by (rule tranclp.trancl_into_trancl)
  then have "tranclp ?R (''1[!!!include(c2.md)!!!]'', ''/r/c1.md'') (''6[!!!include(c1.md)!!!]'', ''/r/c6.md'')"
    using sixCycle_steps(5) by (rule tranclp.trancl_into_trancl)
  then have "tranclp ?R (''1[!!!include(c2.md)!!!]'', ''/r/c1.md'') (''1[!!!include(c2.md)!!!]'', ''/r/c1.md'')"
    using sixCycle_steps(6) by (rule tranclp.trancl_into_trancl)
  then show ?thesis unfolding cyclicFrom_def by blast
qed

lemma sixCycle_result:
  "snd (expandIncludeDirectives (map_of sixCycle) ''/'' ''1[!!!include(c2.md)!!!]'' ''/r'' ''/r/c1.md'' None) =
     Inl (DepthExceeded 5 ''/r/c1.md'')"
  by code_simp

lemma selfFs_examples:
  "includeStep (expandEnvOf (map_of selfFs) ''/'' ''/r'' None)
     (missingThenCycle, ''/r/top.md'') (''!!!include(a.md)!!!'', ''/r/a.md'')"
  "includeStep (expandEnvOf (map_of selfFs) ''/'' ''/r'' None)
     (''!!!include(a.md)!!!'', ''/r/a.md'') (''!!!include(a.md)!!!'', ''/r/a.md'')"
  "snd (expandIncludeDirectives (map_of selfFs) ''/'' missingThenCycle ''/r'' ''/r/top.md'' None) =
     Inl (ReadFailed ''/r/missing.md'')"
  by code_simp+

lemma selfFs_cyclic:
  "cyclicFrom (expandEnvOf (map_of selfFs) ''/'' ''/r'' None) (missingThenCycle, ''/r/top.md'')"
proof -
  let ?R = "includeStep (expandEnvOf (map_of selfFs) ''/'' ''/r'' None)"
  have "rtranclp ?R (missingThenCycle, ''/r/top.md'') (''!!!include(a.md)!!!'', ''/r/a.md'')"
    using selfFs_examples(1) by (rule r_into_rtranclp)
  moreover have "tranclp ?R (''!!!include(a.md)!!!'', ''/r/a.md'') (''!!!include(a.md)!!!'', ''/r/a.md'')"
    using selfFs_examples(2) by (rule tranclp.r_into_trancl)
  ultimately show ?thesis unfolding cyclicFrom_def by blast
qed

text \<open>
  C3 as stated fails. Six files include each other in a cycle, and with the default
  maximum depth the expansion of the first one fails with the depth-exceeded error, not
  with the include-cycle error: the path of the content is not on the stack, so the cycle
  would close only at depth 6. And where an unreadable file is included before a file that
  includes itself, the expansion fails with the read error.
\<close>

theorem long_cycle_hits_depth_limit:
  "cyclicFrom (expandEnvOf (map_of sixCycle) ''/'' ''/r'' None) (''1[!!!include(c2.md)!!!]'', ''/r/c1.md'')
   \<and> snd (expandIncludeDirectives (map_of sixCycle) ''/'' ''1[!!!include(c2.md)!!!]'' ''/r'' ''/r/c1.md'' None) =
       Inl (DepthExceeded 5 ''/r/c1.md'')
   \<and> cyclicFrom (expandEnvOf (map_of selfFs) ''/'' ''/r'' None) (missingThenCycle, ''/r/top.md'')
   \<and> snd (expandIncludeDirectives (map_of selfFs) ''/'' missingThenCycle ''/r'' ''/r/top.md'' None) =
       Inl (ReadFailed ''/r/missing.md'')"
  using sixCycle_cyclic sixCycle_result selfFs_cyclic selfFs_examples(3) by simp

section \<open>Link normalizer: idempotence\<close>

lemma schemeChar_props:
  "isSchemeChar x \<Longrightarrow> \<not> isSpace x \<and> x \<noteq> CHR ''>'' \<and> x \<noteq> CHR '':''"
  by (auto simp: isSchemeChar_def isAlpha_def isUpper_def isLower_def isDigit_def isSpace_def)

lemma alpha_props:
  "isAlpha c \<Longrightarrow> \<not> isSpace c \<and> c \<noteq> CHR ''>'' \<and> c \<noteq> CHR ''<'' \<and> c \<noteq> CHR ''#'' \<and> c \<noteq> CHR ''/''"
  by (auto simp: isAlpha_def isUpper_def isLower_def isSpace_def)

lemma colon_props: "\<not> isSpace CHR '':''" "\<not> isSchemeChar CHR '':''"
  by (simp_all add: isSchemeChar_def isAlpha_def isUpper_def isLower_def isDigit_def isSpace_def)

lemma hasScheme_iff:
  "hasScheme s \<longleftrightarrow>
     (\<exists>c r t. s = c # r @ CHR '':'' # t \<and> isAlpha c \<and> (\<forall>x \<in> set r. isSchemeChar x))"
proof
  assume h: "hasScheme s"
  then obtain c rest where s: "s = c # rest" and a: "isAlpha c" by (cases s) (auto simp: hasScheme_def)
  from h s obtain t where d: "dropWhile isSchemeChar rest = CHR '':'' # t"
    by (cases "dropWhile isSchemeChar rest") (auto simp: hasScheme_def)
  have "rest = takeWhile isSchemeChar rest @ CHR '':'' # t"
    using d by (metis takeWhile_dropWhile_id)
  moreover have "\<forall>x \<in> set (takeWhile isSchemeChar rest). isSchemeChar x"
    by (auto dest: set_takeWhileD)
  ultimately show "\<exists>c r t. s = c # r @ CHR '':'' # t \<and> isAlpha c \<and> (\<forall>x \<in> set r. isSchemeChar x)"
    using s a by blast
next
  assume "\<exists>c r t. s = c # r @ CHR '':'' # t \<and> isAlpha c \<and> (\<forall>x \<in> set r. isSchemeChar x)"
  then obtain c r t where s: "s = c # r @ CHR '':'' # t" and a: "isAlpha c"
    and r: "\<forall>x \<in> set r. isSchemeChar x" by blast
  have "dropWhile isSchemeChar (r @ CHR '':'' # t) = dropWhile isSchemeChar (CHR '':'' # t)"
    using r by (intro dropWhile_append2) auto
  then show "hasScheme s" using a by (simp add: hasScheme_def s colon_props)
qed

lemma hasScheme_append: "hasScheme s \<Longrightarrow> hasScheme (s @ t)"
  unfolding hasScheme_iff by (metis append_Cons append_assoc)

lemma hasScheme_base: "hasScheme b \<Longrightarrow> hasScheme (ensureTrailingSlash b @ y)"
  by (auto simp: ensureTrailingSlash_def intro: hasScheme_append)

lemma normalizeDocLink_cases:
  "normalizeDocLink url cur base = url
   \<or> (\<exists>y. normalizeDocLink url cur base = ensureTrailingSlash base @ y)"
  by (simp add: normalizeDocLink_def Let_def split: prod.splits option.splits)

lemma normalizeDocLink_fixed:
  "url = [] \<or> startsWith ''#'' url \<or> startsWith ''//'' url \<or> hasScheme url \<Longrightarrow>
     normalizeDocLink url cur base = url"
  by (auto simp: normalizeDocLink_def)

lemma normalizeDocLink_idem:
  assumes "hasScheme base"
  shows "normalizeDocLink (normalizeDocLink url cur base) cur base = normalizeDocLink url cur base"
  using normalizeDocLink_cases [of url cur base]
proof
  assume "normalizeDocLink url cur base = url"
  then show ?thesis by simp
next
  assume "\<exists>y. normalizeDocLink url cur base = ensureTrailingSlash base @ y"
  then obtain y where y: "normalizeDocLink url cur base = ensureTrailingSlash base @ y" by blast
  have "hasScheme (ensureTrailingSlash base @ y)" using assms by (rule hasScheme_base)
  then show ?thesis unfolding y by (simp add: normalizeDocLink_fixed)
qed

lemma dropWhile_append_stop:
  "\<not> P x \<Longrightarrow> dropWhile P (xs @ x # ys) = dropWhile P xs @ x # ys"
  by (induction xs) auto

lemma trimEnd_keeps:
  "\<not> isSpace x \<Longrightarrow> trimEnd (A @ x # Y) = A @ x # trimEnd Y"
  by (simp add: trimEnd_def dropWhile_append_stop)

lemma trailing_keeps:
  "\<not> isSpace x \<Longrightarrow>
     takeWhile isSpace (rev (A @ x # Y)) = takeWhile isSpace (rev Y)"
proof -
  assume x: "\<not> isSpace x"
  have "takeWhile isSpace (rev Y @ x # rev A) = takeWhile isSpace (rev Y)"
  proof (induction "rev Y" arbitrary: Y)
    case Nil
    then show ?case using x by simp
  next
    case (Cons a as)
    from Cons(2) have r: "rev Y = a # as" by simp
    have "as = rev (rev as)" by simp
    from Cons(1) [OF this] show ?case unfolding r by simp
  qed
  then show ?thesis by simp
qed

lemma breakAt_Some:
  "breakAt d s = Some (a, b) \<Longrightarrow> s = a @ d # b \<and> d \<notin> set a"
proof (induction s arbitrary: a)
  case Nil
  then show ?case by simp
next
  case (Cons c s)
  show ?case
  proof (cases "c = d")
    case True
    with Cons.prems show ?thesis by simp
  next
    case False
    with Cons.prems obtain a' where s: "breakAt d s = Some (a', b)" and a: "a = c # a'"
      by (cases "breakAt d s") auto
    from Cons.IH [OF s] False show ?thesis by (simp add: a)
  qed
qed

lemma trim_eq_inner:
  "take (length rw - length (rev (takeWhile isSpace (rev rw))) - length (takeWhile isSpace rw))
     (drop (length (takeWhile isSpace rw)) rw) = trim rw"
proof -
  let ?d = "dropWhile isSpace rw"
  have d: "drop (length (takeWhile isSpace rw)) rw = ?d" by (simp add: dropWhile_eq_drop)
  have te: "trimEnd ?d = take (length ?d - length (takeWhile isSpace (rev ?d))) ?d"
  proof -
    have "rev ?d = takeWhile isSpace (rev ?d) @ dropWhile isSpace (rev ?d)" by simp
    then have "?d = rev (dropWhile isSpace (rev ?d)) @ rev (takeWhile isSpace (rev ?d))"
      by (metis rev_append rev_rev_ident)
    then have "?d = trimEnd ?d @ rev (takeWhile isSpace (rev ?d))" by (simp add: trimEnd_def)
    then have "take (length (trimEnd ?d)) ?d = trimEnd ?d" by (metis append_eq_conv_conj)
    moreover have "length (takeWhile isSpace (rev ?d)) + length (dropWhile isSpace (rev ?d)) =
        length (rev ?d)"
      by (metis length_append takeWhile_dropWhile_id)
    then have "length (trimEnd ?d) = length ?d - length (takeWhile isSpace (rev ?d))"
      by (simp add: trimEnd_def)
    ultimately show ?thesis by simp
  qed
  show ?thesis
  proof (cases "?d = []")
    case True
    have "trim rw = trimEnd ?d" by (simp only: trim_def trimStart_def)
    also have "\<dots> = []" unfolding True by (simp add: trimEnd_def)
    finally show ?thesis unfolding d True by simp
  next
    case False
    then obtain x Y where xy: "?d = x # Y" by (cases ?d) auto
    then have nx: "\<not> isSpace x" by (metis hd_dropWhile list.sel(1) list.distinct(1))
    have rw: "rw = takeWhile isSpace rw @ x # Y" using xy by (metis takeWhile_dropWhile_id)
    have "takeWhile isSpace (rev rw) = takeWhile isSpace (rev Y)"
      using trailing_keeps [OF nx, of "takeWhile isSpace rw" Y] rw by simp
    moreover have "takeWhile isSpace (rev ?d) = takeWhile isSpace (rev Y)"
      using trailing_keeps [OF nx, of "[]" Y] xy by simp
    moreover have "length ?d = length rw - length (takeWhile isSpace rw)"
      by (simp add: dropWhile_eq_drop)
    ultimately have "take (length rw - length (rev (takeWhile isSpace (rev rw))) - length (takeWhile isSpace rw)) ?d
        = take (length ?d - length (takeWhile isSpace (rev ?d))) ?d"
      by (simp add: add.commute)
    then show ?thesis unfolding d te [symmetric] by (simp add: trim_def trimStart_def)
  qed
qed

lemma raw_decomp:
  assumes "trim rw \<noteq> []"
  shows "rw = takeWhile isSpace rw @ trim rw @ rev (takeWhile isSpace (rev rw))"
proof -
  let ?d = "dropWhile isSpace rw"
  have "?d \<noteq> []"
  proof
    assume e: "?d = []"
    have "trim rw = trimEnd ?d" by (simp only: trim_def trimStart_def)
    also have "\<dots> = []" unfolding e by (simp add: trimEnd_def)
    finally show False using assms by simp
  qed
  then obtain x Y where xy: "?d = x # Y" by (cases ?d) auto
  then have nx: "\<not> isSpace x" by (metis hd_dropWhile list.sel(1) list.distinct(1))
  have rw: "rw = takeWhile isSpace rw @ x # Y" using xy by (metis takeWhile_dropWhile_id)
  have t: "takeWhile isSpace (rev rw) = takeWhile isSpace (rev Y)"
    using trailing_keeps [OF nx, of "takeWhile isSpace rw" Y] rw by simp
  have tr: "trim rw = x # trimEnd Y"
    using trimEnd_keeps [OF nx, of "[]" Y] xy by (simp add: trim_def trimStart_def)
  have "rev Y = takeWhile isSpace (rev Y) @ dropWhile isSpace (rev Y)" by simp
  then have "Y = trimEnd Y @ rev (takeWhile isSpace (rev Y))"
    unfolding trimEnd_def by (metis rev_append rev_rev_ident)
  then have "x # Y = trim rw @ rev (takeWhile isSpace (rev rw))" unfolding tr t by simp
  then show ?thesis using rw by simp
qed

lemma normalizeLinkDestination_alt:
  "normalizeLinkDestination rw cur base =
     (if trim rw = [] then rw
      else (case (if startsWith ''<'' (trim rw) then breakAt CHR ''>'' (trim rw) else None) of
              Some (a, rest) \<Rightarrow>
                takeWhile isSpace rw @ ''<'' @ normalizeDocLink (drop 1 a) cur base @ ''>''
                  @ rest @ rev (takeWhile isSpace (rev rw))
            | None \<Rightarrow>
                if takeWhile (\<lambda>c. \<not> isSpace c) (trim rw) = [] then rw
                else takeWhile isSpace rw
                       @ normalizeDocLink (takeWhile (\<lambda>c. \<not> isSpace c) (trim rw)) cur base
                       @ dropWhile (\<lambda>c. \<not> isSpace c) (trim rw)
                       @ rev (takeWhile isSpace (rev rw))))"
  unfolding normalizeLinkDestination_def Let_def trim_eq_inner by (rule refl)

lemma destinationUrl_angle:
  assumes "trim rw \<noteq> []" "startsWith ''<'' (trim rw)" "breakAt CHR ''>'' (trim rw) = Some (a, rest)"
  shows "destinationUrl rw = Some (drop 1 a)"
    "normalizeLinkDestination rw cur base =
       takeWhile isSpace rw @ ''<'' @ normalizeDocLink (drop 1 a) cur base @ ''>''
         @ rest @ rev (takeWhile isSpace (rev rw))"
    "rw = takeWhile isSpace rw @ ''<'' @ drop 1 a @ ''>'' @ rest @ rev (takeWhile isSpace (rev rw))"
proof -
  show "destinationUrl rw = Some (drop 1 a)" using assms by (simp add: destinationUrl_def Let_def)
  show "normalizeLinkDestination rw cur base =
       takeWhile isSpace rw @ ''<'' @ normalizeDocLink (drop 1 a) cur base @ ''>''
         @ rest @ rev (takeWhile isSpace (rev rw))"
    unfolding normalizeLinkDestination_alt using assms by simp
  from breakAt_Some [OF assms(3)] have i: "trim rw = a @ CHR ''>'' # rest" by simp
  from assms(2) obtain z where z: "trim rw = CHR ''<'' # z" by (auto simp: startsWith_def prefix_def)
  have "a \<noteq> []" using i z by (cases a) auto
  then have "hd a = CHR ''<''" using i z by (cases a) auto
  with \<open>a \<noteq> []\<close> have a: "a = CHR ''<'' # drop 1 a" by (cases a) auto
  have "''<'' @ drop 1 a @ ''>'' @ rest = trim rw" using i a by (metis append_Cons append_Nil)
  then have e: "takeWhile isSpace rw @ ''<'' @ drop 1 a @ ''>'' @ rest @ rev (takeWhile isSpace (rev rw))
      = takeWhile isSpace rw @ trim rw @ rev (takeWhile isSpace (rev rw))"
    by (metis append.assoc)
  show "rw = takeWhile isSpace rw @ ''<'' @ drop 1 a @ ''>'' @ rest @ rev (takeWhile isSpace (rev rw))"
    unfolding e by (rule raw_decomp [OF assms(1)])
qed

lemma destinationUrl_plain:
  assumes "trim rw \<noteq> []" "(if startsWith ''<'' (trim rw) then breakAt CHR ''>'' (trim rw) else None) = None"
  shows "destinationUrl rw = Some (takeWhile (\<lambda>c. \<not> isSpace c) (trim rw))"
    "normalizeLinkDestination rw cur base =
       (if takeWhile (\<lambda>c. \<not> isSpace c) (trim rw) = [] then rw
        else takeWhile isSpace rw
             @ normalizeDocLink (takeWhile (\<lambda>c. \<not> isSpace c) (trim rw)) cur base
             @ dropWhile (\<lambda>c. \<not> isSpace c) (trim rw)
             @ rev (takeWhile isSpace (rev rw)))"
    "rw = takeWhile isSpace rw @ takeWhile (\<lambda>c. \<not> isSpace c) (trim rw)
            @ dropWhile (\<lambda>c. \<not> isSpace c) (trim rw) @ rev (takeWhile isSpace (rev rw))"
proof -
  show "destinationUrl rw = Some (takeWhile (\<lambda>c. \<not> isSpace c) (trim rw))"
    using assms by (simp add: destinationUrl_def Let_def)
  show "normalizeLinkDestination rw cur base =
       (if takeWhile (\<lambda>c. \<not> isSpace c) (trim rw) = [] then rw
        else takeWhile isSpace rw
             @ normalizeDocLink (takeWhile (\<lambda>c. \<not> isSpace c) (trim rw)) cur base
             @ dropWhile (\<lambda>c. \<not> isSpace c) (trim rw)
             @ rev (takeWhile isSpace (rev rw)))"
    unfolding normalizeLinkDestination_alt using assms by simp
  have e: "takeWhile isSpace rw @ takeWhile (\<lambda>c. \<not> isSpace c) (trim rw)
            @ dropWhile (\<lambda>c. \<not> isSpace c) (trim rw) @ rev (takeWhile isSpace (rev rw))
      = takeWhile isSpace rw @ trim rw @ rev (takeWhile isSpace (rev rw))"
    by (metis append.assoc takeWhile_dropWhile_id)
  show "rw = takeWhile isSpace rw @ takeWhile (\<lambda>c. \<not> isSpace c) (trim rw)
            @ dropWhile (\<lambda>c. \<not> isSpace c) (trim rw) @ rev (takeWhile isSpace (rev rw))"
    unfolding e by (rule raw_decomp [OF assms(1)])
qed

lemma dest_fixed:
  assumes "\<And>u. destinationUrl rw = Some u \<Longrightarrow> normalizeDocLink u cur base = u"
  shows "normalizeLinkDestination rw cur base = rw"
proof (cases "trim rw = []")
  case True
  then show ?thesis by (simp add: normalizeLinkDestination_alt)
next
  case False
  show ?thesis
  proof (cases "if startsWith ''<'' (trim rw) then breakAt CHR ''>'' (trim rw) else None")
    case None
    note p = destinationUrl_plain [OF False None]
    have "normalizeDocLink (takeWhile (\<lambda>c. \<not> isSpace c) (trim rw)) cur base =
        takeWhile (\<lambda>c. \<not> isSpace c) (trim rw)"
      using assms p(1) by simp
    then show ?thesis using p(2) [of cur base] p(3) by simp
  next
    case (Some ar)
    obtain a rest where ar: "ar = (a, rest)" by (cases ar)
    from Some have sw: "startsWith ''<'' (trim rw)" and br: "breakAt CHR ''>'' (trim rw) = Some (a, rest)"
      by (simp_all add: ar split: if_splits)
    note p = destinationUrl_angle [OF False sw br]
    have "normalizeDocLink (drop 1 a) cur base = drop 1 a" using assms p(1) by simp
    then show ?thesis using p(2) [of cur base] p(3) by simp
  qed
qed

lemma trim_leading:
  assumes "\<forall>x \<in> set L. isSpace x" "\<not> isSpace c"
  shows "trim (L @ c # Y) = c # trimEnd Y"
proof -
  have "dropWhile isSpace (L @ c # Y) = dropWhile isSpace (c # Y)"
    using assms(1) by (intro dropWhile_append2) auto
  then have "trim (L @ c # Y) = trimEnd (c # Y)" using assms(2) by (simp add: trim_def trimStart_def)
  then show ?thesis using trimEnd_keeps [OF assms(2), of "[]" Y] by simp
qed

lemma takeWhile_all_then:
  "\<forall>x \<in> set P. Q x \<Longrightarrow> takeWhile Q (P @ Z) = P @ takeWhile Q Z"
  by (induction P) auto

lemma breakAt_skip:
  "d \<notin> set P \<Longrightarrow>
     breakAt d (P @ X) = (case breakAt d X of None \<Rightarrow> None | Some (a, b) \<Rightarrow> Some (P @ a, b))"
  by (induction P) (auto split: option.splits)

lemma breakAt_exists: "d \<in> set s \<Longrightarrow> \<exists>a b. breakAt d s = Some (a, b)"
  by (induction s) (auto split: option.splits)

lemma dest_url_schemed_plain:
  assumes L: "\<forall>x \<in> set L. isSpace x" and N: "hasScheme N"
  shows "\<exists>u. destinationUrl (L @ N @ tail) = Some u \<and> hasScheme u"
proof -
  from N obtain c r t where n: "N = c # r @ CHR '':'' # t" and c: "isAlpha c"
    and r: "\<forall>x \<in> set r. isSchemeChar x" unfolding hasScheme_iff by blast
  have nc: "\<not> isSpace c" using alpha_props [OF c] by simp
  have "trim (L @ c # (r @ CHR '':'' # t @ tail)) = c # trimEnd (r @ CHR '':'' # (t @ tail))"
    using L nc by (intro trim_leading) auto
  also have "trimEnd (r @ CHR '':'' # (t @ tail)) = r @ CHR '':'' # trimEnd (t @ tail)"
    using colon_props(1) by (rule trimEnd_keeps)
  finally have tr: "trim (L @ N @ tail) = (c # r @ '':'') @ trimEnd (t @ tail)"
    by (simp add: n)
  have ns: "\<forall>x \<in> set (c # r @ '':''). \<not> isSpace x"
    using nc r schemeChar_props colon_props(1) by auto
  have nl: "\<not> startsWith ''<'' (trim (L @ N @ tail))"
    unfolding tr using alpha_props [OF c] by (auto simp: startsWith_def)
  have "destinationUrl (L @ N @ tail) =
      Some ((c # r @ '':'') @ takeWhile (\<lambda>c. \<not> isSpace c) (trimEnd (t @ tail)))"
    using nl takeWhile_all_then [OF ns, of "trimEnd (t @ tail)"]
    by (simp add: destinationUrl_def Let_def) (simp add: tr)
  moreover have "hasScheme ((c # r @ '':'') @ takeWhile (\<lambda>c. \<not> isSpace c) (trimEnd (t @ tail)))"
    unfolding hasScheme_iff using c r by auto
  ultimately show ?thesis by blast
qed

lemma dest_url_schemed_angle:
  assumes L: "\<forall>x \<in> set L. isSpace x" and N: "hasScheme N"
  shows "\<exists>u. destinationUrl (L @ ''<'' @ N @ ''>'' @ tail) = Some u \<and> hasScheme u"
proof -
  from N obtain c r t where n: "N = c # r @ CHR '':'' # t" and c: "isAlpha c"
    and r: "\<forall>x \<in> set r. isSchemeChar x" unfolding hasScheme_iff by blast
  have lt: "\<not> isSpace CHR ''<''" "\<not> isSpace CHR ''>''" by (simp_all add: isSpace_def)
  have "trim (L @ CHR ''<'' # (N @ CHR ''>'' # tail)) = CHR ''<'' # trimEnd (N @ CHR ''>'' # tail)"
    using L lt(1) by (intro trim_leading) auto
  also have "trimEnd (N @ CHR ''>'' # tail) = N @ CHR ''>'' # trimEnd tail"
    using lt(2) by (rule trimEnd_keeps)
  finally have tr: "trim (L @ ''<'' @ N @ ''>'' @ tail) =
      (CHR ''<'' # c # r @ '':'') @ (t @ CHR ''>'' # trimEnd tail)"
    by (simp add: n)
  have np: "CHR ''>'' \<notin> set (CHR ''<'' # c # r @ '':'')"
    using alpha_props [OF c] r schemeChar_props by auto
  obtain a b where ab: "breakAt CHR ''>'' (t @ CHR ''>'' # trimEnd tail) = Some (a, b)"
    using breakAt_exists [of "CHR ''>''" "t @ CHR ''>'' # trimEnd tail"] by auto
  have br: "breakAt CHR ''>'' (trim (L @ ''<'' @ N @ ''>'' @ tail)) =
      Some ((CHR ''<'' # c # r @ '':'') @ a, b)"
    unfolding tr breakAt_skip [OF np] ab by simp
  have sw: "startsWith ''<'' (trim (L @ ''<'' @ N @ ''>'' @ tail))"
    unfolding tr by (simp add: startsWith_def)
  have ne: "trim (L @ ''<'' @ N @ ''>'' @ tail) \<noteq> []" unfolding tr by simp
  have "destinationUrl (L @ ''<'' @ N @ ''>'' @ tail) = Some (drop 1 ((CHR ''<'' # c # r @ '':'') @ a))"
    using ne sw br by (rule destinationUrl_angle(1))
  moreover have "hasScheme (drop 1 ((CHR ''<'' # c # r @ '':'') @ a))"
    unfolding hasScheme_iff using c r by auto
  ultimately show ?thesis by blast
qed

lemma normalizeLinkDestination_idem:
  assumes b: "hasScheme base"
  shows "normalizeLinkDestination (normalizeLinkDestination rw cur base) cur base =
           normalizeLinkDestination rw cur base"
proof (cases "trim rw = []")
  case True
  then show ?thesis by (simp add: normalizeLinkDestination_alt)
next
  case False
  have sp: "\<forall>x \<in> set (takeWhile isSpace rw). isSpace x" by (auto dest: set_takeWhileD)
  show ?thesis
  proof (cases "if startsWith ''<'' (trim rw) then breakAt CHR ''>'' (trim rw) else None")
    case None
    note p = destinationUrl_plain [OF False None]
    let ?u = "takeWhile (\<lambda>c. \<not> isSpace c) (trim rw)"
    from normalizeDocLink_cases [of ?u cur base] show ?thesis
    proof
      assume "normalizeDocLink ?u cur base = ?u"
      then have "normalizeLinkDestination rw cur base = rw"
        using p(1) by (intro dest_fixed) simp
      then show ?thesis by simp
    next
      assume "\<exists>y. normalizeDocLink ?u cur base = ensureTrailingSlash base @ y"
      then obtain y where y: "normalizeDocLink ?u cur base = ensureTrailingSlash base @ y" by blast
      have hs: "hasScheme (normalizeDocLink ?u cur base)" unfolding y using b by (rule hasScheme_base)
      show ?thesis
      proof (cases "?u = []")
        case True
        then have "normalizeLinkDestination rw cur base = rw" using p(2) [of cur base] by simp
        then show ?thesis by simp
      next
        case False
        then have R: "normalizeLinkDestination rw cur base =
            takeWhile isSpace rw @ normalizeDocLink ?u cur base
              @ (dropWhile (\<lambda>c. \<not> isSpace c) (trim rw) @ rev (takeWhile isSpace (rev rw)))"
          using p(2) [of cur base] by simp
        from dest_url_schemed_plain [OF sp hs] obtain u where
          "destinationUrl (normalizeLinkDestination rw cur base) = Some u" "hasScheme u"
          unfolding R by blast
        then show ?thesis by (intro dest_fixed) (simp add: normalizeDocLink_fixed)
      qed
    qed
  next
    case (Some ar)
    obtain a rest where ar: "ar = (a, rest)" by (cases ar)
    from Some have sw: "startsWith ''<'' (trim rw)" and br: "breakAt CHR ''>'' (trim rw) = Some (a, rest)"
      by (simp_all add: ar split: if_splits)
    note p = destinationUrl_angle [OF False sw br]
    from normalizeDocLink_cases [of "drop 1 a" cur base] show ?thesis
    proof
      assume "normalizeDocLink (drop 1 a) cur base = drop 1 a"
      then have "normalizeLinkDestination rw cur base = rw"
        using p(1) by (intro dest_fixed) simp
      then show ?thesis by simp
    next
      assume "\<exists>y. normalizeDocLink (drop 1 a) cur base = ensureTrailingSlash base @ y"
      then obtain y where y: "normalizeDocLink (drop 1 a) cur base = ensureTrailingSlash base @ y"
        by blast
      have hs: "hasScheme (normalizeDocLink (drop 1 a) cur base)"
        unfolding y using b by (rule hasScheme_base)
      have R: "normalizeLinkDestination rw cur base =
            takeWhile isSpace rw @ ''<'' @ normalizeDocLink (drop 1 a) cur base @ ''>''
              @ (rest @ rev (takeWhile isSpace (rev rw)))"
        using p(2) [of cur base] by simp
      from dest_url_schemed_angle [OF sp hs] obtain u where
        "destinationUrl (normalizeLinkDestination rw cur base) = Some u" "hasScheme u"
        unfolding R by blast
      then show ?thesis by (intro dest_fixed) (simp add: normalizeDocLink_fixed)
    qed
  qed
qed

text \<open>
  C7. With a base URL that carries a scheme, link normalization is idempotent on each
  destination: \<open>normalizeDocLink\<close> leaves a URL untouched when it is empty, a fragment,
  protocol-relative or schemed, its result is such a URL or the URL itself, and so applying
  it twice equals applying it once; \<open>normalizeLinkDestination\<close> returns a destination as it
  is when the destination is blank or its URL is left untouched, and applying it twice
  equals applying it once.
\<close>

theorem link_destination_idempotent:
  assumes "hasScheme baseUrl"
  shows "(leftUntouched url \<longrightarrow> normalizeDocLink url currentFilePath baseUrl = url)
   \<and> (normalizeDocLink url currentFilePath baseUrl = url
        \<or> hasScheme (normalizeDocLink url currentFilePath baseUrl))
   \<and> normalizeDocLink (normalizeDocLink url currentFilePath baseUrl) currentFilePath baseUrl =
       normalizeDocLink url currentFilePath baseUrl
   \<and> (destinationUrl dest = None \<longrightarrow> normalizeLinkDestination dest currentFilePath baseUrl = dest)
   \<and> (destinationUrl dest = Some u \<and> leftUntouched u \<longrightarrow>
        normalizeLinkDestination dest currentFilePath baseUrl = dest)
   \<and> normalizeLinkDestination (normalizeLinkDestination dest' currentFilePath baseUrl)
         currentFilePath baseUrl =
       normalizeLinkDestination dest' currentFilePath baseUrl"
proof (intro conjI impI)
  assume "leftUntouched url"
  then show "normalizeDocLink url currentFilePath baseUrl = url"
    unfolding leftUntouched_def by (rule normalizeDocLink_fixed)
next
  show "normalizeDocLink url currentFilePath baseUrl = url
        \<or> hasScheme (normalizeDocLink url currentFilePath baseUrl)"
    using normalizeDocLink_cases [of url currentFilePath baseUrl] hasScheme_base [OF assms]
    by auto
next
  show "normalizeDocLink (normalizeDocLink url currentFilePath baseUrl) currentFilePath baseUrl =
       normalizeDocLink url currentFilePath baseUrl"
    using assms by (rule normalizeDocLink_idem)
next
  assume "destinationUrl dest = None"
  then show "normalizeLinkDestination dest currentFilePath baseUrl = dest"
    by (intro dest_fixed) simp
next
  assume "destinationUrl dest = Some u \<and> leftUntouched u"
  then show "normalizeLinkDestination dest currentFilePath baseUrl = dest"
    by (intro dest_fixed) (auto simp: leftUntouched_def intro: normalizeDocLink_fixed)
next
  show "normalizeLinkDestination (normalizeLinkDestination dest' currentFilePath baseUrl)
         currentFilePath baseUrl =
       normalizeLinkDestination dest' currentFilePath baseUrl"
    using assms by (rule normalizeLinkDestination_idem)
qed

lemma link_examples:
  "hasScheme ''https://x/docs/5.x/''"
  "leftUntouched ''//cdn.x/a.md''"
  "destinationUrl ''  '' = None"
  "destinationUrl '' <mailto:a@b> t'' = Some ''mailto:a@b''"
  "leftUntouched ''mailto:a@b''"
  "normalizeDocLink ''../a.md#s'' ''guide/index.md'' ''https://x/docs/5.x/'' = ''https://x/docs/5.x/a.html#s''"
  "normalizeLinkDestination ''a.md t'' ''guide/index.md'' ''https://x/docs/5.x/'' =
     ''https://x/docs/5.x/guide/a.html t''"
  by code_simp+

theorem link_destination_idempotent_witness:
  "hasScheme ''https://x/docs/5.x/''
   \<and> leftUntouched ''//cdn.x/a.md''
   \<and> normalizeDocLink ''//cdn.x/a.md'' ''guide/index.md'' ''https://x/docs/5.x/'' = ''//cdn.x/a.md''
   \<and> normalizeDocLink ''../a.md#s'' ''guide/index.md'' ''https://x/docs/5.x/'' = ''https://x/docs/5.x/a.html#s''
   \<and> normalizeDocLink ''https://x/docs/5.x/a.html#s'' ''guide/index.md'' ''https://x/docs/5.x/'' =
       ''https://x/docs/5.x/a.html#s''
   \<and> destinationUrl ''  '' = None
   \<and> normalizeLinkDestination ''  '' ''guide/index.md'' ''https://x/docs/5.x/'' = ''  ''
   \<and> destinationUrl '' <mailto:a@b> t'' = Some ''mailto:a@b'' \<and> leftUntouched ''mailto:a@b''
   \<and> normalizeLinkDestination '' <mailto:a@b> t'' ''guide/index.md'' ''https://x/docs/5.x/'' =
       '' <mailto:a@b> t''
   \<and> normalizeLinkDestination ''a.md t'' ''guide/index.md'' ''https://x/docs/5.x/'' =
       ''https://x/docs/5.x/guide/a.html t''
   \<and> normalizeLinkDestination ''https://x/docs/5.x/guide/a.html t'' ''guide/index.md'' ''https://x/docs/5.x/'' =
       ''https://x/docs/5.x/guide/a.html t''"
  using link_destination_idempotent [where baseUrl = "''https://x/docs/5.x/''"
      and currentFilePath = "''guide/index.md''" and url = "''//cdn.x/a.md''" and dest = "''  ''"
      and dest' = "''a.md t''"]
    link_destination_idempotent [where baseUrl = "''https://x/docs/5.x/''"
      and currentFilePath = "''guide/index.md''" and url = "''../a.md#s''"
      and dest = "'' <mailto:a@b> t''" and u = "''mailto:a@b''" and dest' = "''a.md t''"]
    link_examples
  by simp

text \<open>
  On whole contents the normalizer is not idempotent, also with a schemed base URL. In the
  reference definition \<open>[l]: [t](//h/u.md)\<close> the inline link is protocol-relative and stays,
  and the destination of the definition, \<open>[t](//h/u.md)\<close>, is joined to the directory of
  the current file, which collapses \<open>//\<close>; the second run then finds the inline link
  \<open>[t](/h/u.md)\<close> and rewrites it.
\<close>

theorem normalizeLinks_not_idempotent:
  "hasScheme ''https://x/docs/5.x/''
   \<and> normalizeLinks ''[l]: [t](//h/u.md)'' ''https://x/docs/5.x/'' ''index.md'' =
       ''[l]: https://x/docs/5.x/[t](/h/u.md)''
   \<and> normalizeLinks (normalizeLinks ''[l]: [t](//h/u.md)'' ''https://x/docs/5.x/'' ''index.md'')
         ''https://x/docs/5.x/'' ''index.md'' =
       ''[l]: https://x/docs/5.x/[t](https://x/docs/5.x/h/u.html)''
   \<and> normalizeLinks (normalizeLinks ''[l]: [t](//h/u.md)'' ''https://x/docs/5.x/'' ''index.md'')
         ''https://x/docs/5.x/'' ''index.md'' \<noteq>
       normalizeLinks ''[l]: [t](//h/u.md)'' ''https://x/docs/5.x/'' ''index.md''"
  by code_simp

end
